theory Spec2Isabelle
  imports Main "HOL-Library.Product_Lexorder"
begin

section \<open>Python strings\<close>

text \<open>
  A Python \<open>str\<close> is modelled as a \<open>char list\<close>, one \<open>char\<close> per code point, for the
  code points below 256. The character classes below are the ones Python 3 uses on that
  range: \<open>str.isspace\<close> (also \<open>\s\<close> of \<open>re\<close> and the separator of \<open>str.split()\<close>), the
  line boundaries of \<open>str.splitlines\<close>, \<open>\d\<close> and \<open>\w\<close> of \<open>re\<close>.
\<close>

definition is_space :: "char \<Rightarrow> bool" where
  "is_space c = (of_char c \<in> {9, 10, 11, 12, 13, 28, 29, 30, 31, 32, 133, 160 :: nat})"

definition is_linebreak :: "char \<Rightarrow> bool" where
  "is_linebreak c = (of_char c \<in> {10, 11, 12, 13, 28, 29, 30, 133 :: nat})"

definition is_digit :: "char \<Rightarrow> bool" where
  "is_digit c = (48 \<le> (of_char c :: nat) \<and> (of_char c :: nat) \<le> 57)"

definition is_word :: "char \<Rightarrow> bool" where
  "is_word c = (let n = (of_char c :: nat) in
     (48 \<le> n \<and> n \<le> 57) \<or> (65 \<le> n \<and> n \<le> 90) \<or> n = 95 \<or> (97 \<le> n \<and> n \<le> 122) \<or>
     n \<in> {170, 178, 179, 181, 185, 186, 188, 189, 190} \<or>
     (192 \<le> n \<and> n \<le> 214) \<or> (216 \<le> n \<and> n \<le> 246) \<or> (248 \<le> n \<and> n \<le> 255))"

text \<open>\<open>s.startswith(p)\<close>\<close>

fun startswith :: "string \<Rightarrow> string \<Rightarrow> bool" where
  "startswith s [] = True"
| "startswith [] (p # ps) = False"
| "startswith (c # cs) (p # ps) = (c = p \<and> startswith cs ps)"

text \<open>\<open>p in s\<close>\<close>

fun contains :: "string \<Rightarrow> string \<Rightarrow> bool" where
  "contains [] p = (p = [])"
| "contains (c # cs) p = (startswith (c # cs) p \<or> contains cs p)"

text \<open>
  \<open>s.replace(old, new)\<close>: the occurrences of \<open>old\<close> are found from left to right and do not
  overlap. With an empty \<open>old\<close>, Python puts \<open>new\<close> before every character and at the end.
\<close>

fun replace_scan :: "string \<Rightarrow> string \<Rightarrow> string \<Rightarrow> string" where
  "replace_scan old new [] = []"
| "replace_scan old new (c # cs) =
     (if startswith (c # cs) old then new @ replace_scan old new (drop (length old - 1) cs)
      else c # replace_scan old new cs)"

definition str_replace :: "string \<Rightarrow> string \<Rightarrow> string \<Rightarrow> string" where
  "str_replace s old new =
     (if old = [] then new @ concat (map (\<lambda>c. c # new) s) else replace_scan old new s)"

text \<open>
  \<open>s.splitlines()\<close>: a line ends at a line boundary (\<open>\r\n\<close> counts as one); the boundaries
  are dropped, and a boundary at the very end opens no further line.
\<close>

fun splitlines_from :: "string \<Rightarrow> string \<Rightarrow> string list" where
  "splitlines_from cur [] = (if cur = [] then [] else [cur])"
| "splitlines_from cur [c] = (if is_linebreak c then [cur] else [cur @ [c]])"
| "splitlines_from cur (c # d # cs) =
     (if c = CHR 0x0D \<and> d = CHR 0x0A then cur # splitlines_from [] cs
      else if is_linebreak c then cur # splitlines_from [] (d # cs)
      else splitlines_from (cur @ [c]) (d # cs))"

definition splitlines :: "string \<Rightarrow> string list" where
  "splitlines s = splitlines_from [] s"

text \<open>\<open>s.split()\<close>: the maximal runs of characters that are not white space.\<close>

fun split_from :: "string \<Rightarrow> string \<Rightarrow> string list" where
  "split_from cur [] = (if cur = [] then [] else [cur])"
| "split_from cur (c # cs) =
     (if is_space c then (if cur = [] then split_from [] cs else cur # split_from [] cs)
      else split_from (cur @ [c]) cs)"

definition str_split :: "string \<Rightarrow> string list" where
  "str_split s = split_from [] s"

text \<open>\<open>sep.join(xs)\<close>\<close>

fun join :: "string \<Rightarrow> string list \<Rightarrow> string" where
  "join sep [] = []"
| "join sep [x] = x"
| "join sep (x # y # ys) = x @ sep @ join sep (y # ys)"

text \<open>The decimal digits of a natural number.\<close>

fun str_nat :: "nat \<Rightarrow> string" where
  "str_nat n = (if n < 10 then [char_of (48 + n)] else str_nat (n div 10) @ [char_of (48 + n mod 10)])"

text \<open>\<open>s.encode("utf-8")\<close>, a byte per \<open>char\<close> of the result: two bytes for a code point from 128.\<close>

definition encode_utf8 :: "string \<Rightarrow> string" where
  "encode_utf8 s = concat (map (\<lambda>c. let n = (of_char c :: nat) in
      if n < 128 then [c] else [char_of (192 + n div 64), char_of (128 + n mod 64)]) s)"

section \<open>Errors\<close>

text \<open>
  The exceptions the modelled functions raise. \<open>NvvmError\<close> carries the message and the
  name of the result code; the text of the \<open>ValueError\<close> of \<open>set_launch_bounds\<close> is left out.
\<close>

datatype error = NvvmError string string | IndexError | AttributeError | ValueError

text \<open>
  \<open>str(i)\<close> of an integer, which an f-string uses as well: the decimal digits, with a minus
  sign when negative. The interpreter refuses to convert an integer of more than
  \<open>sys.get_int_max_str_digits()\<close> digits and raises ValueError; the limit is 4300 unless the
  interpreter is started with another one.
\<close>

definition int_max_str_digits :: nat where
  "int_max_str_digits = 4300"

definition str_int :: "int \<Rightarrow> error + string" where
  "str_int i =
     (let digits = str_nat (nat \<bar>i\<bar>)
      in if int_max_str_digits < length digits then Inl ValueError
         else Inr (if i < 0 then ''-'' @ digits else digits))"

section \<open>The driver: result codes, IR version and data layout\<close>

definition RESULT_CODE_NAMES :: "string list" where
  "RESULT_CODE_NAMES =
     [''NVVM_SUCCESS'',
      ''NVVM_ERROR_OUT_OF_MEMORY'',
      ''NVVM_ERROR_PROGRAM_CREATION_FAILURE'',
      ''NVVM_ERROR_IR_VERSION_MISMATCH'',
      ''NVVM_ERROR_INVALID_INPUT'',
      ''NVVM_ERROR_INVALID_PROGRAM'',
      ''NVVM_ERROR_INVALID_IR'',
      ''NVVM_ERROR_INVALID_OPTION'',
      ''NVVM_ERROR_NO_MODULE_IN_PROGRAM'',
      ''NVVM_ERROR_COMPILATION'']"

definition datalayout_original :: string where
  "datalayout_original =
     ''e-p:64:64:64-i1:8:8-i8:8:8-i16:16:16-i32:32:32-'' @
     ''i64:64:64-f32:32:32-f64:64:64-v16:16:16-v32:32:32-'' @
     ''v64:64:64-v128:128:128-n16:32:64''"

definition datalayout_i128 :: string where
  "datalayout_i128 =
     ''e-p:64:64:64-i1:8:8-i8:8:8-i16:16:16-i32:32:32-i64:64:64-'' @
     ''i128:128:128-f32:32:32-f64:64:64-v16:16:16-v32:32:32-'' @
     ''v64:64:64-v128:128:128-n16:32:64''"

text \<open>
  \<open>NVVM.check_error(error, msg)\<close> with \<open>exit=False\<close>: a result code other than 0 raises
  \<open>NvvmError\<close> with the name of the code; the lookup \<open>RESULT_CODE_NAMES[error]\<close> is Python
  indexing, so a negative code counts from the end and a code out of range raises IndexError.
\<close>

definition check_error :: "int \<Rightarrow> string \<Rightarrow> error + unit" where
  "check_error err msg =
     (if err \<noteq> 0 then
        (let n = int (length RESULT_CODE_NAMES); j = (if err < 0 then n + err else err)
         in if 0 \<le> j \<and> j < n then Inl (NvvmError msg (RESULT_CODE_NAMES ! nat j))
            else Inl IndexError)
      else Inr ())"





section \<open>Launch bounds\<close>

text \<open>
  The module of llvmlite is outside the program. Of it the model keeps the metadata nodes,
  each the list of its operands, and the named metadata, each a name with the nodes added
  to it. \<open>Module.add_metadata\<close> returns the node with these operands, creating it when the
  module has none; \<open>get_or_insert_named_metadata\<close> creates the named metadata when it is
  missing; \<open>NamedMetaData.add\<close> appends a node to it.
\<close>

datatype md_operand = MDFunction string | MDString string | MDConstant_i32 int

record ir_module =
  metadata :: "md_operand list list"
  named_metadata :: "(string \<times> md_operand list list) list"

definition add_metadata :: "ir_module \<Rightarrow> md_operand list \<Rightarrow> ir_module" where
  "add_metadata m ops =
     (if ops \<in> set (metadata m) then m else m\<lparr>metadata := metadata m @ [ops]\<rparr>)"



text \<open>The nodes of the named metadata \<open>name\<close>, none when it does not exist.\<close>

definition annotations :: "ir_module \<Rightarrow> string \<Rightarrow> md_operand list list" where
  "annotations m name = (case map_of (named_metadata m) name of None \<Rightarrow> [] | Some mds \<Rightarrow> mds)"





section \<open>Compilation options\<close>

text \<open>
  The values an option can have: \<open>None\<close>, a boolean, an integer or a string. \<open>py_str\<close> is
  what an f-string renders for the value (or the exception that the conversion of an
  integer raises), \<open>truthy\<close> its truth value in a condition.
\<close>

datatype py_value = PyNone | PyBool bool | PyInt int | PyStr string

definition py_str :: "py_value \<Rightarrow> error + string" where
  "py_str v =
     (case v of
        PyNone \<Rightarrow> Inr ''None''
      | PyBool b \<Rightarrow> Inr (if b then ''True'' else ''False'')
      | PyInt i \<Rightarrow> str_int i
      | PyStr s \<Rightarrow> Inr s)"

definition truthy :: "py_value \<Rightarrow> bool" where
  "truthy v =
     (case v of PyNone \<Rightarrow> False | PyBool b \<Rightarrow> b | PyInt i \<Rightarrow> i \<noteq> 0 | PyStr s \<Rightarrow> s \<noteq> [])"

text \<open>The local function \<open>stringify_option(k, v)\<close> of \<open>CompilationUnit.__init__\<close>.\<close>

definition stringify_option :: "string \<Rightarrow> py_value \<Rightarrow> error + string" where
  "stringify_option k v =
     (let k = str_replace k ''_'' ''-'' in
      if v = PyNone then Inr (encode_utf8 (''-'' @ k))
      else
        (let v = (case v of PyBool b \<Rightarrow> PyInt (if b then 1 else 0) | _ \<Rightarrow> v)
         in case py_str v of
              Inl e \<Rightarrow> Inl e
            | Inr s \<Rightarrow> Inr (encode_utf8 (''-'' @ k @ ''='' @ s))))"

text \<open>
  A dictionary keeps its keys in insertion order: it is the list of its items, the keys
  distinct. \<open>d.pop(k, default)\<close> returns the value and the dictionary without the key;
  \<open>d[k] = v\<close> overwrites the value of a key in its place and appends a new key;
  \<open>d.update(other)\<close> stores the items of \<open>other\<close> one after the other.
\<close>

type_synonym py_dict = "(string \<times> py_value) list"

definition dict_pop :: "py_dict \<Rightarrow> string \<Rightarrow> py_value \<Rightarrow> py_value \<times> py_dict" where
  "dict_pop d k dflt =
     (case map_of d k of
        None \<Rightarrow> (dflt, d)
      | Some v \<Rightarrow> (v, filter (\<lambda>(k', _). k' \<noteq> k) d))"

definition dict_setitem :: "py_dict \<Rightarrow> string \<Rightarrow> py_value \<Rightarrow> py_dict" where
  "dict_setitem d k v =
     (if k \<in> fst ` set d then map (\<lambda>(k', v'). if k' = k then (k', v) else (k', v')) d
      else d @ [(k, v)])"

definition dict_update :: "py_dict \<Rightarrow> py_dict \<Rightarrow> py_dict" where
  "dict_update d other = foldl (\<lambda>d (k, v). dict_setitem d k v) d other"

text \<open>
  The list comprehension \<open>[stringify_option(k, v) for k, v in options.items()]\<close>: the tokens
  of the items in their order, or the exception of the first item whose conversion raises.
\<close>

fun stringify_options :: "py_dict \<Rightarrow> error + string list" where
  "stringify_options [] = Inr []"
| "stringify_options ((k, v) # items) =
     (case stringify_option k v of
        Inl e \<Rightarrow> Inl e
      | Inr token \<Rightarrow>
          (case stringify_options items of
             Inl e \<Rightarrow> Inl e
           | Inr tokens \<Rightarrow> Inr (token # tokens)))"

text \<open>
  \<open>CompilationUnit.__init__(options)\<close>: the result code of the native call
  \<open>nvvmCreateProgram\<close> is the argument \<open>err\<close>. Of the object the model keeps the encoded
  options and their number.
\<close>

record CompilationUnit =
  options :: "string list"
  n_options :: nat

definition CompilationUnit_init :: "int \<Rightarrow> py_dict \<Rightarrow> error + CompilationUnit" where
  "CompilationUnit_init err opts =
     (case check_error err ''Failed to create CU'' of
        Inl e \<Rightarrow> Inl e
      | Inr _ \<Rightarrow>
          (case stringify_options opts of
             Inl e \<Rightarrow> Inl e
           | Inr encoded \<Rightarrow> Inr \<lparr>options = encoded, n_options = length encoded\<rparr>))"

text \<open>
  \<open>compile_ir(llvmir, **options)\<close>, up to the creation of the compilation unit: the
  handling of \<open>fastmath\<close>, then \<open>CompilationUnit(options)\<close>. What follows are native calls.
\<close>

definition compile_ir_options :: "py_dict \<Rightarrow> py_dict" where
  "compile_ir_options opts =
     (case dict_pop opts ''fastmath'' (PyBool False) of
        (fastmath, opts') \<Rightarrow>
          if truthy fastmath then
            dict_update opts'
              [(''ftz'', PyBool True),
               (''fma'', PyBool True),
               (''prec_div'', PyBool False),
               (''prec_sqrt'', PyBool False)]
          else opts')"

definition compile_ir_cu :: "int \<Rightarrow> py_dict \<Rightarrow> error + CompilationUnit" where
  "compile_ir_cu err opts = CompilationUnit_init err (compile_ir_options opts)"

section \<open>Conversion of LLVM 15 IR for LLVM 7\<close>

text \<open>
  The regular expression \<open>^attributes #\d+ = \{ ([\w\s]+)\ }\<close>, matched at the start of a
  line as \<open>re.match\<close> does. The matcher backtracks: every part returns the ways it can
  match, the one tried first at the head. A literal matches in one way or in none and
  leaves the rest of the input; \<open>+\<close> on a character class is greedy, it tries the longest
  run first and then the shorter ones, down to one character. The first way in which all
  parts match is the match, and \<open>m.group(1)\<close> is what the parenthesis matched in it.
\<close>

definition re_literal :: "string \<Rightarrow> string \<Rightarrow> string list" where
  "re_literal p s = (if startswith s p then [drop (length p) s] else [])"

definition re_plus :: "(char \<Rightarrow> bool) \<Rightarrow> string \<Rightarrow> (string \<times> string) list" where
  "re_plus cls s =
     map (\<lambda>k. (take k s, drop k s)) (rev [1..<Suc (length (takeWhile cls s))])"

definition re_attributes_def :: "string \<Rightarrow> string list" where
  "re_attributes_def line =
     [g. r1 \<leftarrow> re_literal ''attributes #'' line,
         (ds, r2) \<leftarrow> re_plus is_digit r1,
         r3 \<leftarrow> re_literal '' = { '' r2,
         (g, r4) \<leftarrow> re_plus (\<lambda>c. is_word c \<or> is_space c) r3,
         r5 \<leftarrow> re_literal '' }'' r4]"

definition re_attributes_def_match :: "string \<Rightarrow> string option" where
  "re_attributes_def_match line =
     (case re_attributes_def line of [] \<Rightarrow> None | g # _ \<Rightarrow> Some g)"

text \<open>
  The body of the loop of \<open>llvm150_to_70_ir\<close> for one line. When the line starts with
  \<open>attributes #\<close> and the expression does not match, \<open>m\<close> is \<open>None\<close> and \<open>m.group(1)\<close> raises
  AttributeError.
\<close>

definition convert_line :: "string \<Rightarrow> error + string" where
  "convert_line line =
     (if startswith line ''attributes #'' then
        (case re_attributes_def_match line of
           None \<Rightarrow> Inl AttributeError
         | Some g \<Rightarrow>
             (let attrs = str_split g;
                  attrs = join '' '' (filter (\<lambda>a. a \<noteq> ''willreturn'') attrs)
              in Inr (str_replace line g attrs)))
      else Inr line)"

fun llvm150_to_70_ir_loop :: "string list \<Rightarrow> string list \<Rightarrow> error + string list" where
  "llvm150_to_70_ir_loop buf [] = Inr buf"
| "llvm150_to_70_ir_loop buf (line # lines) =
     (case convert_line line of
        Inl e \<Rightarrow> Inl e
      | Inr line' \<Rightarrow> llvm150_to_70_ir_loop (buf @ [line']) lines)"

definition llvm150_to_70_ir :: "string \<Rightarrow> error + string" where
  "llvm150_to_70_ir ir =
     (case llvm150_to_70_ir_loop [] (splitlines ir) of
        Inl e \<Rightarrow> Inl e
      | Inr buf \<Rightarrow> Inr (join ''\<newline>'' buf))"

section \<open>Synthesized atomics\<close>

text \<open>
  The templates, with \<open>str.format\<close> carried out: each function is the text of its template,
  line by line, with the fields replaced by the arguments and a doubled brace by a brace.
  \<open>ir_cas\<close> is the template \<open>cas_nvvm\<close>, the field \<open>CAS\<close> of the others.
\<close>

definition ir_cas :: "string \<Rightarrow> string" where
  \<open>ir_cas Ti = concat
     [''\<newline>'',
      ''    %cas_success = cmpxchg volatile '', Ti, ''* %iptr, '', Ti, '' %old, '', Ti, '' %new monotonic monotonic\<newline>'',
      ''    %cas = extractvalue { '', Ti, '', i1 } %cas_success, 0\<newline>'']\<close>

definition ir_numba_atomic_binary :: "string \<Rightarrow> string \<Rightarrow> string \<Rightarrow> string \<Rightarrow> string" where
  \<open>ir_numba_atomic_binary T Ti OP FUNC = concat
     [''\<newline>'',
      ''define internal '', T, '' @___numba_atomic_'', T, ''_'', FUNC, ''('', T, ''* %ptr, '', T, '' %val) alwaysinline {\<newline>'',
      ''entry:\<newline>'',
      ''    %iptr = bitcast '', T, ''* %ptr to '', Ti, ''*\<newline>'',
      ''    %old2 = load volatile '', Ti, '', '', Ti, ''* %iptr\<newline>'',
      ''    br label %attempt\<newline>'',
      ''\<newline>'',
      ''attempt:\<newline>'',
      ''    %old = phi '', Ti, '' [ %old2, %entry ], [ %cas, %attempt ]\<newline>'',
      ''    %dold = bitcast '', Ti, '' %old to '', T, ''\<newline>'',
      ''    %dnew = '', OP, '' '', T, '' %dold, %val\<newline>'',
      ''    %new = bitcast '', T, '' %dnew to '', Ti, ''\<newline>'',
      ''    '', ir_cas Ti, ''\<newline>'',
      ''    %repeat = icmp ne '', Ti, '' %cas, %old\<newline>'',
      ''    br i1 %repeat, label %attempt, label %done\<newline>'',
      ''\<newline>'',
      ''done:\<newline>'',
      ''    %result = bitcast '', Ti, '' %old to '', T, ''\<newline>'',
      ''    ret '', T, '' %result\<newline>'',
      ''}\<newline>'']\<close>

definition ir_numba_atomic_minmax :: "string \<Rightarrow> string \<Rightarrow> string \<Rightarrow> string \<Rightarrow> string \<Rightarrow> string \<Rightarrow> string" where
  \<open>ir_numba_atomic_minmax T Ti NAN OP PTR_OR_VAL FUNC = concat
     [''\<newline>'',
      ''define internal '', T, '' @___numba_atomic_'', T, ''_'', NAN, FUNC, ''('', T, ''* %ptr, '', T, '' %val) alwaysinline {\<newline>'',
      ''entry:\<newline>'',
      ''    %ptrval = load volatile '', T, '', '', T, ''* %ptr\<newline>'',
      ''    ; Return early when:\<newline>'',
      ''    ; - For nanmin / nanmax when val is a NaN\<newline>'',
      ''    ; - For min / max when val or ptr is a NaN\<newline>'',
      ''    %early_return = fcmp uno '', T, '' %val, %'', PTR_OR_VAL, ''val\<newline>'',
      ''    br i1 %early_return, label %done, label %lt_check\<newline>'',
      ''\<newline>'',
      ''lt_check:\<newline>'',
      ''    %dold = phi '', T, '' [ %ptrval, %entry ], [ %dcas, %attempt ]\<newline>'',
      ''    ; Continue attempts if dold less or greater than val (depending on whether min or max)\<newline>'',
      ''    ; or if dold is NaN (for nanmin / nanmax)\<newline>'',
      ''    %cmp = fcmp '', OP, '' '', T, '' %dold, %val\<newline>'',
      ''    br i1 %cmp, label %attempt, label %done\<newline>'',
      ''\<newline>'',
      ''attempt:\<newline>'',
      ''    ; Attempt to swap in the value\<newline>'',
      ''    %old = bitcast '', T, '' %dold to '', Ti, ''\<newline>'',
      ''    %iptr = bitcast '', T, ''* %ptr to '', Ti, ''*\<newline>'',
      ''    %new = bitcast '', T, '' %val to '', Ti, ''\<newline>'',
      ''    '', ir_cas Ti, ''\<newline>'',
      ''    %dcas = bitcast '', Ti, '' %cas to '', T, ''\<newline>'',
      ''    br label %lt_check\<newline>'',
      ''\<newline>'',
      ''done:\<newline>'',
      ''    ret '', T, '' %ptrval\<newline>'',
      ''}\<newline>'']\<close>

definition ir_numba_atomic_inc :: "string \<Rightarrow> string \<Rightarrow> string" where
  \<open>ir_numba_atomic_inc T Tu = concat
     [''\<newline>'',
      ''define internal '', T, '' @___numba_atomic_'', Tu, ''_inc('', T, ''* %iptr, '', T, '' %val) alwaysinline {\<newline>'',
      ''entry:\<newline>'',
      ''    %old2 = load volatile '', T, '', '', T, ''* %iptr\<newline>'',
      ''    br label %attempt\<newline>'',
      ''\<newline>'',
      ''attempt:\<newline>'',
      ''    %old = phi '', T, '' [ %old2, %entry ], [ %cas, %attempt ]\<newline>'',
      ''    %bndchk = icmp ult '', T, '' %old, %val\<newline>'',
      ''    %inc = add '', T, '' %old, 1\<newline>'',
      ''    %new = select i1 %bndchk, '', T, '' %inc, '', T, '' 0\<newline>'',
      ''    '', ir_cas T, ''\<newline>'',
      ''    %repeat = icmp ne '', T, '' %cas, %old\<newline>'',
      ''    br i1 %repeat, label %attempt, label %done\<newline>'',
      ''\<newline>'',
      ''done:\<newline>'',
      ''    ret '', T, '' %old\<newline>'',
      ''}\<newline>'']\<close>

definition ir_numba_atomic_dec :: "string \<Rightarrow> string \<Rightarrow> string" where
  \<open>ir_numba_atomic_dec T Tu = concat
     [''\<newline>'',
      ''define internal '', T, '' @___numba_atomic_'', Tu, ''_dec('', T, ''* %iptr, '', T, '' %val) alwaysinline {\<newline>'',
      ''entry:\<newline>'',
      ''    %old2 = load volatile '', T, '', '', T, ''* %iptr\<newline>'',
      ''    br label %attempt\<newline>'',
      ''\<newline>'',
      ''attempt:\<newline>'',
      ''    %old = phi '', T, '' [ %old2, %entry ], [ %cas, %attempt ]\<newline>'',
      ''    %dec = add '', T, '' %old, -1\<newline>'',
      ''    %bndchk = icmp ult '', T, '' %dec, %val\<newline>'',
      ''    %new = select i1 %bndchk, '', T, '' %dec, '', T, '' %val\<newline>'',
      ''    '', ir_cas T, ''\<newline>'',
      ''    %repeat = icmp ne '', T, '' %cas, %old\<newline>'',
      ''    br i1 %repeat, label %attempt, label %done\<newline>'',
      ''\<newline>'',
      ''done:\<newline>'',
      ''    ret '', T, '' %old\<newline>'',
      ''}\<newline>'']\<close>
text \<open>The list \<open>replacements\<close> of \<open>llvm_replace\<close>, in its order.\<close>

definition replacements :: "(string \<times> string) list" where
  \<open>replacements =
     [(''declare double @"___numba_atomic_double_add"(double* %".1", double %".2")'',
       ir_numba_atomic_binary ''double'' ''i64'' ''fadd'' ''add''),
      (''declare float @"___numba_atomic_float_sub"(float* %".1", float %".2")'',
       ir_numba_atomic_binary ''float'' ''i32'' ''fsub'' ''sub''),
      (''declare double @"___numba_atomic_double_sub"(double* %".1", double %".2")'',
       ir_numba_atomic_binary ''double'' ''i64'' ''fsub'' ''sub''),
      (''declare i64 @"___numba_atomic_u64_inc"(i64* %".1", i64 %".2")'',
       ir_numba_atomic_inc ''i64'' ''u64''),
      (''declare i64 @"___numba_atomic_u64_dec"(i64* %".1", i64 %".2")'',
       ir_numba_atomic_dec ''i64'' ''u64''),
      (''declare float @"___numba_atomic_float_max"(float* %".1", float %".2")'',
       ir_numba_atomic_minmax ''float'' ''i32'' [] ''nnan olt'' ''ptr'' ''max''),
      (''declare double @"___numba_atomic_double_max"(double* %".1", double %".2")'',
       ir_numba_atomic_minmax ''double'' ''i64'' [] ''nnan olt'' ''ptr'' ''max''),
      (''declare float @"___numba_atomic_float_min"(float* %".1", float %".2")'',
       ir_numba_atomic_minmax ''float'' ''i32'' [] ''nnan ogt'' ''ptr'' ''min''),
      (''declare double @"___numba_atomic_double_min"(double* %".1", double %".2")'',
       ir_numba_atomic_minmax ''double'' ''i64'' [] ''nnan ogt'' ''ptr'' ''min''),
      (''declare float @"___numba_atomic_float_nanmax"(float* %".1", float %".2")'',
       ir_numba_atomic_minmax ''float'' ''i32'' ''nan'' ''ult'' [] ''max''),
      (''declare double @"___numba_atomic_double_nanmax"(double* %".1", double %".2")'',
       ir_numba_atomic_minmax ''double'' ''i64'' ''nan'' ''ult'' [] ''max''),
      (''declare float @"___numba_atomic_float_nanmin"(float* %".1", float %".2")'',
       ir_numba_atomic_minmax ''float'' ''i32'' ''nan'' ''ugt'' [] ''min''),
      (''declare double @"___numba_atomic_double_nanmin"(double* %".1", double %".2")'',
       ir_numba_atomic_minmax ''double'' ''i64'' ''nan'' ''ugt'' [] ''min''),
      (''immarg'', [])]\<close>

definition llvm_replace :: "string \<Rightarrow> error + string" where
  "llvm_replace llvmir =
     llvm150_to_70_ir
       (foldl (\<lambda>llvmir (decl, fn). str_replace llvmir decl fn) llvmir replacements)"

section \<open>Observing a text\<close>

text \<open>
  The lines of a text that start with a given prefix, and the texts without a line
  boundary; both are used to state what a generated function contains.
\<close>

definition lines_starting :: "string \<Rightarrow> string \<Rightarrow> string list" where
  "lines_starting text p = filter (\<lambda>line. startswith line p) (splitlines text)"

definition no_linebreak :: "string \<Rightarrow> bool" where
  "no_linebreak s = list_all (\<lambda>c. \<not> is_linebreak c) s"

text \<open>
  The basic blocks of a generated function: a block starts after the line of its label
  (a line such as \<open>entry:\<close>, not indented and ending with a colon) and goes on up to the
  next label or the end of the text.
\<close>

definition is_label :: "string \<Rightarrow> bool" where
  "is_label line = (line \<noteq> [] \<and> hd line \<noteq> CHR '' '' \<and> last line = CHR '':'')"

definition block :: "string \<Rightarrow> string \<Rightarrow> string list" where
  "block text label =
     takeWhile (\<lambda>line. \<not> is_label line)
       (drop 1 (dropWhile (\<lambda>line. line \<noteq> label @ '':'') (splitlines text)))"

section \<open>Running a synthesized atomic\<close>

text \<open>
  The generated functions work on one memory cell, \<open>%ptr\<close>, that other threads write to.
  The cell holds a bit pattern; \<open>bitcast\<close> changes the type of a register and not its
  bits, so \<open>%old\<close> and \<open>%dold\<close>, \<open>%new\<close> and \<open>%dnew\<close>, \<open>%cas\<close> and \<open>%dcas\<close> are the same
  value here, and the floating-point instructions \<open>OP\<close> and \<open>fcmp\<close> are functions on bit
  patterns. Before each access of the function to the cell (the \<open>load volatile\<close> of
  \<open>entry\<close> and every \<open>cmpxchg\<close>) another thread may have written it: \<open>writes\<close> lists, access
  by access, the value written (\<open>None\<close> when nobody wrote); after the list nobody writes.
  \<open>swaps\<close> records the \<open>cmpxchg\<close> of the function that stored: the value replaced and the
  value stored.
\<close>

record 'v cell =
  content :: 'v
  writes :: "'v option list"
  swaps :: "('v \<times> 'v) list"

definition interfere :: "'v cell \<Rightarrow> 'v cell" where
  "interfere c =
     (case writes c of
        [] \<Rightarrow> c
      | w # ws \<Rightarrow> c\<lparr>content := (case w of None \<Rightarrow> content c | Some v \<Rightarrow> v), writes := ws\<rparr>)"


text \<open>
  The template \<open>cas_nvvm\<close>: \<open>cmpxchg volatile %iptr, %old, %new\<close> stores \<open>%new\<close> when the cell
  holds \<open>%old\<close>; \<open>%cas\<close> is the value that the cell held.
\<close>

definition cas_nvvm :: "'v cell \<Rightarrow> 'v \<Rightarrow> 'v \<Rightarrow> 'v \<times> 'v cell" where
  "cas_nvvm c old new =
     (let c = interfere c; cas = content c
      in if cas = old then (cas, c\<lparr>content := new, swaps := swaps c @ [(old, new)]\<rparr>)
         else (cas, c))"

text \<open>
  The function of \<open>ir_numba_atomic_binary_template\<close>. \<open>attempt\<close> is its block \<open>attempt\<close>
  with \<open>done\<close>: \<open>%old\<close> is the argument (the \<open>phi\<close> of \<open>%old2\<close> and \<open>%cas\<close>), \<open>%repeat\<close> is
  \<open>icmp ne %cas, %old\<close>, and \<open>done\<close> returns \<open>%old\<close>.
\<close>

function attempt :: "('v \<Rightarrow> 'v \<Rightarrow> 'v) \<Rightarrow> 'v \<Rightarrow> 'v \<Rightarrow> 'v cell \<Rightarrow> 'v \<times> 'v cell" where
  "attempt OP val old c =
     (let dnew = OP old val;
          (cas, c') = cas_nvvm c old dnew;
          repeat = (cas \<noteq> old)
      in if repeat then attempt OP val cas c' else (old, c'))"
  by pat_completeness auto
termination
  by (relation "measure (\<lambda>(OP, val, old, c).
        2 * length (writes c) + (if content c = old then 0 else 1))")
     (auto simp: cas_nvvm_def interfere_def Let_def split: list.splits option.splits if_splits)

declare attempt.simps [simp del]


text \<open>
  The function of \<open>ir_numba_atomic_minmax_template\<close>. \<open>lt_check\<close> is its block \<open>lt_check\<close>
  with \<open>attempt\<close> and \<open>done\<close>: \<open>%dold\<close> is the argument (the \<open>phi\<close> of \<open>%ptrval\<close> and \<open>%dcas\<close>),
  \<open>%cmp\<close> is \<open>fcmp OP %dold, %val\<close>, \<open>attempt\<close> swaps in \<open>%val\<close> and goes back to \<open>lt_check\<close>,
  and \<open>done\<close> returns \<open>%ptrval\<close>. Nothing in the function bounds the number of rounds, so
  the model counts them: the first argument is the number of times \<open>lt_check\<close> may be
  entered, and \<open>None\<close> is a run that needs more. The second operand of \<open>%early_return\<close> is
  the register \<open>%ptrval\<close> when \<open>PTR_OR_VAL\<close> is \<open>ptr\<close> and \<open>%val\<close> when it is empty, the two
  values with which the function is generated.
\<close>

fun lt_check ::
  "nat \<Rightarrow> ('v \<Rightarrow> 'v \<Rightarrow> bool) \<Rightarrow> 'v \<Rightarrow> 'v \<Rightarrow> 'v \<Rightarrow> 'v cell \<Rightarrow> ('v \<times> 'v cell) option" where
  "lt_check 0 fcmp_OP val ptrval dold c = None"
| "lt_check (Suc n) fcmp_OP val ptrval dold c =
     (let cmp = fcmp_OP dold val
      in if cmp then
           (let (cas, c') = cas_nvvm c dold val in lt_check n fcmp_OP val ptrval cas c')
         else Some (ptrval, c))"


section \<open>Properties\<close>

subsection \<open>Data layout\<close>


lemma layouts_differ: "datalayout_original \<noteq> datalayout_i128"
  by (simp add: datalayout_original_def datalayout_i128_def)


subsection \<open>Launch bounds\<close>

lemma named_metadata_add_metadata [simp]: "named_metadata (add_metadata m ops) = named_metadata m"
  by (simp add: add_metadata_def)

lemma annotations_add_metadata [simp]: "annotations (add_metadata m ops) nm = annotations m nm"
  by (simp add: annotations_def)










subsection \<open>Option encoding\<close>




declare str_nat.simps [simp del]






























subsection \<open>The fastmath flag\<close>

lemma filter_absent_key: "map_of d k = None \<Longrightarrow> filter (\<lambda>(k', _). k' \<noteq> k) d = d"
  by (induction d) (auto split: if_splits)

lemma dict_setitem_keys: "fst ` set (dict_setitem d k v) = insert k (fst ` set d)"
  by (auto simp: dict_setitem_def image_iff split: if_splits prod.splits) force+

lemma dict_update_eq:
  "distinct (map fst other) \<Longrightarrow>
   dict_update d other =
     map (\<lambda>(k, v). (k, case map_of other k of Some w \<Rightarrow> w | None \<Rightarrow> v)) d @
     filter (\<lambda>(k, _). k \<notin> fst ` set d) other"
proof (induction other arbitrary: d)
  case Nil
  then show ?case by (simp add: dict_update_def)
next
  case (Cons kv other)
  obtain k v where kv: "kv = (k, v)" by (cases kv)
  from Cons.prems kv have nk: "k \<notin> fst ` set other" and dist: "distinct (map fst other)"
    by auto
  have nk': "map_of other k = None" using nk by (simp add: map_of_eq_None_iff)
  have step: "dict_update d (kv # other) = dict_update (dict_setitem d k v) other"
    by (simp add: dict_update_def kv)
  show ?case
  proof (cases "k \<in> fst ` set d")
    case True
    have a: "map (\<lambda>(k', v'). (k', case map_of other k' of Some w \<Rightarrow> w | None \<Rightarrow> v'))
               (map (\<lambda>(k', v'). if k' = k then (k', v) else (k', v')) d) =
             map (\<lambda>(k', v'). (k', case map_of (kv # other) k' of Some w \<Rightarrow> w | None \<Rightarrow> v')) d"
      using nk' by (auto simp: kv)
    have b: "filter (\<lambda>(k', _). k' \<notin> fst ` set d) (kv # other) =
             filter (\<lambda>(k', _). k' \<notin> fst ` set d) other"
      using True by (simp add: kv)
    have c: "fst ` set (dict_setitem d k v) = fst ` set d"
      using True by (auto simp: dict_setitem_keys)
    have d: "dict_setitem d k v = map (\<lambda>(k', v'). if k' = k then (k', v) else (k', v')) d"
      using True by (simp add: dict_setitem_def)
    show ?thesis
      unfolding step Cons.IH [OF dist] c b unfolding d a ..
  next
    case False
    have d: "dict_setitem d k v = d @ [(k, v)]"
      using False by (simp add: dict_setitem_def)
    have a: "map (\<lambda>(k', v'). (k', case map_of other k' of Some w \<Rightarrow> w | None \<Rightarrow> v')) d =
             map (\<lambda>(k', v'). (k', case map_of (kv # other) k' of Some w \<Rightarrow> w | None \<Rightarrow> v')) d"
      using False by (auto simp: kv image_iff)
    have b: "filter (\<lambda>(k', _). k' \<notin> fst ` set (d @ [(k, v)])) other =
             filter (\<lambda>(k', _). k' \<notin> fst ` set d) other"
      using nk by (intro filter_cong) (auto simp: image_iff)
    show ?thesis
      unfolding step Cons.IH [OF dist] d b using False nk' by (simp add: a kv)
  qed
qed

text \<open>
  C6, as the code has it. \<open>compile_ir\<close> removes \<open>fastmath\<close> from the options. When its value
  is true, the four options \<open>ftz=True\<close>, \<open>fma=True\<close>, \<open>prec_div=False\<close>, \<open>prec_sqrt=False\<close>
  are stored with \<open>dict.update\<close>: one whose name is already an option keeps that position
  and gets the new value, the others are appended in this order. When \<open>fastmath\<close> is absent
  or false the other options are left as they are.
\<close>

theorem fastmath_expansion:
  "compile_ir_options opts =
     (let rest = filter (\<lambda>(k, _). k \<noteq> ''fastmath'') opts;
          four = [(''ftz'', PyBool True), (''fma'', PyBool True),
                  (''prec_div'', PyBool False), (''prec_sqrt'', PyBool False)]
      in if (\<exists>v. map_of opts ''fastmath'' = Some v \<and> truthy v)
         then map (\<lambda>(k, v). (k, case map_of four k of Some w \<Rightarrow> w | None \<Rightarrow> v)) rest @
              filter (\<lambda>(k, _). k \<notin> fst ` set rest) four
         else rest)"
proof (cases "map_of opts ''fastmath''")
  case None
  then show ?thesis
    by (simp add: compile_ir_options_def dict_pop_def truthy_def filter_absent_key Let_def)
next
  case (Some v)
  have "distinct (map fst [(''ftz'', PyBool True), (''fma'', PyBool True),
                  (''prec_div'', PyBool False), (''prec_sqrt'', PyBool False)])" by simp
  note u = dict_update_eq [OF this]
  show ?thesis
    unfolding compile_ir_options_def dict_pop_def Some Let_def u by simp
qed

text \<open>
  With \<open>prec_sqrt\<close> already among the options, the four are not added in the order
  \<open>ftz\<close>, \<open>fma\<close>, \<open>prec_div\<close>, \<open>prec_sqrt\<close> after the existing ones.
\<close>

theorem fastmath_expansion_counterexample:
  "compile_ir_options [(''prec_sqrt'', PyBool True), (''fastmath'', PyBool True)] =
     [(''prec_sqrt'', PyBool False), (''ftz'', PyBool True), (''fma'', PyBool True),
      (''prec_div'', PyBool False)]
   \<and> compile_ir_options [(''prec_sqrt'', PyBool True), (''fastmath'', PyBool True)] \<noteq>
     [(''prec_sqrt'', PyBool True)] @
     [(''ftz'', PyBool True), (''fma'', PyBool True), (''prec_div'', PyBool False),
      (''prec_sqrt'', PyBool False)]"
  by (simp add: compile_ir_options_def dict_pop_def truthy_def dict_update_def dict_setitem_def)

subsection \<open>Strings and the regular expression\<close>

lemma startswith_iff: "startswith s p = (\<exists>r. s = p @ r)"
  by (induction s p rule: startswith.induct) auto

lemma re_literal_iff: "r \<in> set (re_literal p s) = (s = p @ r)"
  by (auto simp: re_literal_def startswith_iff)

lemma length_takeWhile_ge:
  "\<forall>c \<in> set a. cls c \<Longrightarrow> length a \<le> length (takeWhile cls (a @ r))"
  by (induction a) auto

lemma take_takeWhile: "k \<le> length (takeWhile cls s) \<Longrightarrow> \<forall>c \<in> set (take k s). cls c"
proof (induction s arbitrary: k)
  case Nil
  then show ?case by simp
next
  case (Cons a s)
  then show ?case by (cases k) (auto split: if_splits)
qed

lemma re_plus_iff:
  "(a, r) \<in> set (re_plus cls s) = (s = a @ r \<and> a \<noteq> [] \<and> (\<forall>c \<in> set a. cls c))"
proof
  assume "(a, r) \<in> set (re_plus cls s)"
  then obtain k where k: "1 \<le> k" "k \<le> length (takeWhile cls s)" "a = take k s" "r = drop k s"
    by (auto simp: re_plus_def)
  have "\<forall>c \<in> set a. cls c" using take_takeWhile [OF k(2)] k(3) by simp
  moreover have "a \<noteq> []" using k by (cases s) auto
  ultimately show "s = a @ r \<and> a \<noteq> [] \<and> (\<forall>c \<in> set a. cls c)"
    using k by simp
next
  assume h: "s = a @ r \<and> a \<noteq> [] \<and> (\<forall>c \<in> set a. cls c)"
  then have "length a \<le> length (takeWhile cls s)"
    using length_takeWhile_ge by blast
  moreover have "1 \<le> length a" using h by (cases a) auto
  ultimately have "length a \<in> set (rev [1..<Suc (length (takeWhile cls s))])"
    by auto
  then have "(take (length a) s, drop (length a) s) \<in> set (re_plus cls s)"
    unfolding re_plus_def set_map by (rule imageI)
  then show "(a, r) \<in> set (re_plus cls s)" using h by simp
qed

lemma re_attributes_def_parts:
  "g \<in> set (re_attributes_def line) =
     (\<exists>r1 ds r2 r3 r4 r5.
        r1 \<in> set (re_literal ''attributes #'' line) \<and> (ds, r2) \<in> set (re_plus is_digit r1) \<and>
        r3 \<in> set (re_literal '' = { '' r2) \<and>
        (g, r4) \<in> set (re_plus (\<lambda>c. is_word c \<or> is_space c) r3) \<and>
        r5 \<in> set (re_literal '' }'' r4))"
  unfolding re_attributes_def_def by fastforce

lemma re_attributes_def_iff:
  "g \<in> set (re_attributes_def line) =
     (\<exists>ds rest. line = ''attributes #'' @ ds @ '' = { '' @ g @ '' }'' @ rest
        \<and> ds \<noteq> [] \<and> (\<forall>c \<in> set ds. is_digit c)
        \<and> g \<noteq> [] \<and> (\<forall>c \<in> set g. is_word c \<or> is_space c))"
  unfolding re_attributes_def_parts re_literal_iff re_plus_iff by blast

lemma startswith_append [simp]: "startswith (p @ r) p"
  by (simp add: startswith_iff)

lemma re_attributes_def_match_None:
  "(re_attributes_def_match line = None) =
     (\<not> (\<exists>ds g rest. line = ''attributes #'' @ ds @ '' = { '' @ g @ '' }'' @ rest
        \<and> ds \<noteq> [] \<and> (\<forall>c \<in> set ds. is_digit c)
        \<and> g \<noteq> [] \<and> (\<forall>c \<in> set g. is_word c \<or> is_space c)))"
proof -
  have "(re_attributes_def_match line = None) = (set (re_attributes_def line) = {})"
    by (simp add: re_attributes_def_match_def split: list.splits)
  also have "\<dots> = (\<not> (\<exists>g. g \<in> set (re_attributes_def line)))" by auto
  finally show ?thesis unfolding re_attributes_def_iff by blast
qed

subsection \<open>The conversion can fail\<close>

lemma convert_line_cases:
  "convert_line line = Inl AttributeError \<or> (\<exists>l. convert_line line = Inr l)"
  by (auto simp: convert_line_def Let_def split: option.splits)

lemma convert_line_error:
  "(convert_line line = Inl e) =
     (e = AttributeError \<and> startswith line ''attributes #'' \<and> re_attributes_def_match line = None)"
  by (auto simp: convert_line_def Let_def split: option.splits)

lemma convert_line_ok:
  "startswith line ''attributes #'' \<longrightarrow> re_attributes_def_match line \<noteq> None \<Longrightarrow>
   \<exists>l. convert_line line = Inr l"
  by (auto simp: convert_line_def Let_def split: option.splits)

lemma loop_error:
  "\<exists>line \<in> set lines. \<exists>e. convert_line line = Inl e \<Longrightarrow>
   llvm150_to_70_ir_loop buf lines = Inl AttributeError"
proof (induction lines arbitrary: buf)
  case Nil
  then show ?case by simp
next
  case (Cons l lines)
  show ?case
  proof (cases "convert_line l")
    case (Inl e)
    then show ?thesis using convert_line_cases [of l] by auto
  next
    case (Inr l')
    with Cons.prems have "\<exists>line \<in> set lines. \<exists>e. convert_line line = Inl e" by auto
    from Cons.IH [OF this] Inr show ?thesis by simp
  qed
qed

lemma loop_ok:
  "\<forall>line \<in> set lines. \<exists>l. convert_line line = Inr l \<Longrightarrow>
   \<exists>out. llvm150_to_70_ir_loop buf lines = Inr out"
  by (induction lines arbitrary: buf) auto

text \<open>
  C9. \<open>llvm150_to_70_ir\<close> is not total. When a line of the input starts with
  \<open>attributes #\<close> and the regular expression does not match it, the function raises
  (AttributeError, from \<open>m.group(1)\<close> on \<open>None\<close>); it returns a text when every such line is
  matched. The expression matches a line exactly when the line is \<open>attributes #\<close>, digits,
  \<open> = { \<close>, a non-empty body of word characters and white space, and \<open> }\<close>, followed by
  anything.
\<close>

theorem llvm150_to_70_ir_not_total:
  "((\<exists>line \<in> set (splitlines ir).
       startswith line ''attributes #'' \<and> re_attributes_def_match line = None)
     \<longrightarrow> llvm150_to_70_ir ir = Inl AttributeError)
   \<and> ((\<forall>line \<in> set (splitlines ir).
         startswith line ''attributes #'' \<longrightarrow> re_attributes_def_match line \<noteq> None)
     \<longrightarrow> (\<exists>out. llvm150_to_70_ir ir = Inr out))
   \<and> (re_attributes_def_match line = None) =
       (\<not> (\<exists>ds g rest. line = ''attributes #'' @ ds @ '' = { '' @ g @ '' }'' @ rest
          \<and> ds \<noteq> [] \<and> (\<forall>c \<in> set ds. is_digit c)
          \<and> g \<noteq> [] \<and> (\<forall>c \<in> set g. is_word c \<or> is_space c)))"
proof (intro conjI impI)
  assume "\<exists>line \<in> set (splitlines ir).
       startswith line ''attributes #'' \<and> re_attributes_def_match line = None"
  then have "\<exists>line \<in> set (splitlines ir). \<exists>e. convert_line line = Inl e"
    using convert_line_error by blast
  from loop_error [OF this] show "llvm150_to_70_ir ir = Inl AttributeError"
    by (simp add: llvm150_to_70_ir_def)
next
  assume "\<forall>line \<in> set (splitlines ir).
         startswith line ''attributes #'' \<longrightarrow> re_attributes_def_match line \<noteq> None"
  then have "\<forall>line \<in> set (splitlines ir). \<exists>l. convert_line line = Inr l"
    using convert_line_ok by blast
  from loop_ok [OF this, of "[]"] show "\<exists>out. llvm150_to_70_ir ir = Inr out"
    by (auto simp: llvm150_to_70_ir_def)
next
  show "(re_attributes_def_match line = None) =
       (\<not> (\<exists>ds g rest. line = ''attributes #'' @ ds @ '' = { '' @ g @ '' }'' @ rest
          \<and> ds \<noteq> [] \<and> (\<forall>c \<in> set ds. is_digit c)
          \<and> g \<noteq> [] \<and> (\<forall>c \<in> set g. is_word c \<or> is_space c)))"
    by (rule re_attributes_def_match_None)
qed

theorem llvm150_to_70_ir_not_total_witness:
  \<open>splitlines ''attributes #0 = { "no-frame-pointer-elim"="true" }'' =
     [''attributes #0 = { "no-frame-pointer-elim"="true" }'']
   \<and> re_attributes_def_match ''attributes #0 = { "no-frame-pointer-elim"="true" }'' = None
   \<and> llvm150_to_70_ir ''attributes #0 = { "no-frame-pointer-elim"="true" }'' = Inl AttributeError
   \<and> splitlines ''attributes #0 = { nounwind }'' = [''attributes #0 = { nounwind }'']
   \<and> re_attributes_def_match ''attributes #0 = { nounwind }'' = Some ''nounwind''
   \<and> (\<exists>out. llvm150_to_70_ir ''attributes #0 = { nounwind }'' = Inr out)\<close>
proof -
  have s1: \<open>splitlines ''attributes #0 = { "no-frame-pointer-elim"="true" }'' =
     [''attributes #0 = { "no-frame-pointer-elim"="true" }'']\<close>
    by code_simp
  have m1: \<open>re_attributes_def_match ''attributes #0 = { "no-frame-pointer-elim"="true" }'' = None\<close>
    by code_simp
  have s2: \<open>splitlines ''attributes #0 = { nounwind }'' = [''attributes #0 = { nounwind }'']\<close>
    by code_simp
  have m2: \<open>re_attributes_def_match ''attributes #0 = { nounwind }'' = Some ''nounwind''\<close>
    by code_simp
  have h1: \<open>\<exists>line \<in> set (splitlines ''attributes #0 = { "no-frame-pointer-elim"="true" }'').
       startswith line ''attributes #'' \<and> re_attributes_def_match line = None\<close>
    unfolding s1 using m1 by simp
  have h2: \<open>\<forall>line \<in> set (splitlines ''attributes #0 = { nounwind }'').
         startswith line ''attributes #'' \<longrightarrow> re_attributes_def_match line \<noteq> None\<close>
    unfolding s2 using m2 by simp
  show ?thesis
    using h1 h2 s1 m1 s2 m2
      llvm150_to_70_ir_not_total [of \<open>''attributes #0 = { "no-frame-pointer-elim"="true" }''\<close>]
      llvm150_to_70_ir_not_total [of \<open>''attributes #0 = { nounwind }''\<close>]
    by blast
qed

subsection \<open>The lines of the generated functions\<close>

lemma no_linebreak_simps [simp]:
  "no_linebreak []"
  "no_linebreak (c # cs) = (\<not> is_linebreak c \<and> no_linebreak cs)"
  "no_linebreak (xs @ ys) = (no_linebreak xs \<and> no_linebreak ys)"
  by (simp_all add: no_linebreak_def)

lemma splitlines_from_LF:
  "splitlines_from cur (CHR 0x0A # rest) = cur # splitlines_from [] rest"
  by (cases rest) (simp_all add: is_linebreak_def)

lemma splitlines_from_char:
  "\<not> is_linebreak c \<Longrightarrow> splitlines_from cur (c # rest) = splitlines_from (cur @ [c]) rest"
  by (cases rest) (auto simp: is_linebreak_def)

lemma splitlines_from_line:
  "\<forall>c \<in> set l. \<not> is_linebreak c \<Longrightarrow>
   splitlines_from cur (l @ rest) = splitlines_from (cur @ l) rest"
  by (induction l arbitrary: cur) (simp_all add: splitlines_from_char)

lemma splitlines_from_lines:
  "\<forall>l \<in> set ls. \<forall>c \<in> set l. \<not> is_linebreak c \<Longrightarrow>
   splitlines_from [] (concat (map (\<lambda>l. l @ [CHR 0x0A]) ls)) = ls"
proof (induction ls)
  case Nil
  then show ?case by simp
next
  case (Cons l ls)
  have "splitlines_from [] (l @ CHR 0x0A # concat (map (\<lambda>l. l @ [CHR 0x0A]) ls)) =
        splitlines_from l (CHR 0x0A # concat (map (\<lambda>l. l @ [CHR 0x0A]) ls))"
    using Cons.prems splitlines_from_line [of l "[]"] by simp
  then show ?case using Cons by (simp add: splitlines_from_LF)
qed

lemma splitlines_lines:
  "text = concat (map (\<lambda>l. l @ [CHR 0x0A]) ls) \<Longrightarrow>
   list_all no_linebreak ls \<Longrightarrow> splitlines text = ls"
  by (simp add: splitlines_def splitlines_from_lines list_all_iff no_linebreak_def)


lemma minmax_lines:
  assumes "no_linebreak T" "no_linebreak Ti" "no_linebreak NAN" "no_linebreak OP" "no_linebreak PTR_OR_VAL" "no_linebreak FUNC"
  shows \<open>splitlines (ir_numba_atomic_minmax T Ti NAN OP PTR_OR_VAL FUNC) =
     [[],
      ''define internal '' @ T @ '' @___numba_atomic_'' @ T @ ''_'' @ NAN @ FUNC @ ''('' @ T @ ''* %ptr, '' @ T @ '' %val) alwaysinline {'',
      ''entry:'',
      ''    %ptrval = load volatile '' @ T @ '', '' @ T @ ''* %ptr'',
      ''    ; Return early when:'',
      ''    ; - For nanmin / nanmax when val is a NaN'',
      ''    ; - For min / max when val or ptr is a NaN'',
      ''    %early_return = fcmp uno '' @ T @ '' %val, %'' @ PTR_OR_VAL @ ''val'',
      ''    br i1 %early_return, label %done, label %lt_check'',
      [],
      ''lt_check:'',
      ''    %dold = phi '' @ T @ '' [ %ptrval, %entry ], [ %dcas, %attempt ]'',
      ''    ; Continue attempts if dold less or greater than val (depending on whether min or max)'',
      ''    ; or if dold is NaN (for nanmin / nanmax)'',
      ''    %cmp = fcmp '' @ OP @ '' '' @ T @ '' %dold, %val'',
      ''    br i1 %cmp, label %attempt, label %done'',
      [],
      ''attempt:'',
      ''    ; Attempt to swap in the value'',
      ''    %old = bitcast '' @ T @ '' %dold to '' @ Ti,
      ''    %iptr = bitcast '' @ T @ ''* %ptr to '' @ Ti @ ''*'',
      ''    %new = bitcast '' @ T @ '' %val to '' @ Ti,
      ''    '',
      ''    %cas_success = cmpxchg volatile '' @ Ti @ ''* %iptr, '' @ Ti @ '' %old, '' @ Ti @ '' %new monotonic monotonic'',
      ''    %cas = extractvalue {'' @ '' '' @ Ti @ '', i1 }'' @ '' %cas_success, 0'',
      [],
      ''    %dcas = bitcast '' @ Ti @ '' %cas to '' @ T,
      ''    br label %lt_check'',
      [],
      ''done:'',
      ''    ret '' @ T @ '' %ptrval'',
      ''}'']\<close>
  apply (rule splitlines_lines)
   apply (simp add: ir_numba_atomic_minmax_def ir_cas_def)
  apply (simp add: is_linebreak_def assms)
  done



lemma minmax_early_return_line:
  assumes "no_linebreak T" "no_linebreak Ti"
    "no_linebreak NAN" "no_linebreak OP"
    "no_linebreak PTR_OR_VAL" "no_linebreak FUNC"
  shows "lines_starting (ir_numba_atomic_minmax T Ti NAN OP PTR_OR_VAL FUNC) ''    %early_return = '' =
     [''    %early_return = fcmp uno '' @ T @ '' %val, %'' @ PTR_OR_VAL @ ''val'']"
  unfolding lines_starting_def minmax_lines [OF assms] by simp


lemma minmax_define_line:
  assumes "no_linebreak T" "no_linebreak Ti"
    "no_linebreak NAN" "no_linebreak OP"
    "no_linebreak PTR_OR_VAL" "no_linebreak FUNC"
  shows "lines_starting (ir_numba_atomic_minmax T Ti NAN OP PTR_OR_VAL FUNC) ''define '' =
     [''define internal '' @ T @ '' @___numba_atomic_'' @ T @ ''_'' @ NAN @ FUNC @ ''('' @ T @
      ''* %ptr, '' @ T @ '' %val) alwaysinline {'']"
  unfolding lines_starting_def minmax_lines [OF assms] by simp

lemma minmax_entries:
  \<open>take 8 (drop 5 replacements) =
     [(''declare float @"___numba_atomic_float_max"(float* %".1", float %".2")'',
       ir_numba_atomic_minmax ''float'' ''i32'' [] ''nnan olt'' ''ptr'' ''max''),
      (''declare double @"___numba_atomic_double_max"(double* %".1", double %".2")'',
       ir_numba_atomic_minmax ''double'' ''i64'' [] ''nnan olt'' ''ptr'' ''max''),
      (''declare float @"___numba_atomic_float_min"(float* %".1", float %".2")'',
       ir_numba_atomic_minmax ''float'' ''i32'' [] ''nnan ogt'' ''ptr'' ''min''),
      (''declare double @"___numba_atomic_double_min"(double* %".1", double %".2")'',
       ir_numba_atomic_minmax ''double'' ''i64'' [] ''nnan ogt'' ''ptr'' ''min''),
      (''declare float @"___numba_atomic_float_nanmax"(float* %".1", float %".2")'',
       ir_numba_atomic_minmax ''float'' ''i32'' ''nan'' ''ult'' [] ''max''),
      (''declare double @"___numba_atomic_double_nanmax"(double* %".1", double %".2")'',
       ir_numba_atomic_minmax ''double'' ''i64'' ''nan'' ''ult'' [] ''max''),
      (''declare float @"___numba_atomic_float_nanmin"(float* %".1", float %".2")'',
       ir_numba_atomic_minmax ''float'' ''i32'' ''nan'' ''ugt'' [] ''min''),
      (''declare double @"___numba_atomic_double_nanmin"(double* %".1", double %".2")'',
       ir_numba_atomic_minmax ''double'' ''i64'' ''nan'' ''ugt'' [] ''min'')]\<close>
  by (simp add: replacements_def)

lemma minmax_blocks:
  assumes "no_linebreak T" "no_linebreak Ti" "no_linebreak NAN" "no_linebreak OP"
    "no_linebreak PTR_OR_VAL" "no_linebreak FUNC"
  shows "block (ir_numba_atomic_minmax T Ti NAN OP PTR_OR_VAL FUNC) ''entry'' =
     [''    %ptrval = load volatile '' @ T @ '', '' @ T @ ''* %ptr'',
      ''    ; Return early when:'',
      ''    ; - For nanmin / nanmax when val is a NaN'',
      ''    ; - For min / max when val or ptr is a NaN'',
      ''    %early_return = fcmp uno '' @ T @ '' %val, %'' @ PTR_OR_VAL @ ''val'',
      ''    br i1 %early_return, label %done, label %lt_check'',
      []]"
    and "block (ir_numba_atomic_minmax T Ti NAN OP PTR_OR_VAL FUNC) ''lt_check'' =
     [''    %dold = phi '' @ T @ '' [ %ptrval, %entry ], [ %dcas, %attempt ]'',
      ''    ; Continue attempts if dold less or greater than val (depending on whether min or max)'',
      ''    ; or if dold is NaN (for nanmin / nanmax)'',
      ''    %cmp = fcmp '' @ OP @ '' '' @ T @ '' %dold, %val'',
      ''    br i1 %cmp, label %attempt, label %done'',
      []]"
    and "block (ir_numba_atomic_minmax T Ti NAN OP PTR_OR_VAL FUNC) ''attempt'' =
     [''    ; Attempt to swap in the value'',
      ''    %old = bitcast '' @ T @ '' %dold to '' @ Ti,
      ''    %iptr = bitcast '' @ T @ ''* %ptr to '' @ Ti @ ''*'',
      ''    %new = bitcast '' @ T @ '' %val to '' @ Ti,
      ''    '',
      ''    %cas_success = cmpxchg volatile '' @ Ti @ ''* %iptr, '' @ Ti @ '' %old, '' @ Ti @ '' %new monotonic monotonic'',
      ''    %cas = extractvalue { '' @ Ti @ '', i1 } %cas_success, 0'',
      [],
      ''    %dcas = bitcast '' @ Ti @ '' %cas to '' @ T,
      ''    br label %lt_check'',
      []]"
    and "block (ir_numba_atomic_minmax T Ti NAN OP PTR_OR_VAL FUNC) ''done'' =
     [''    ret '' @ T @ '' %ptrval'', ''}'']"
  unfolding block_def minmax_lines [OF assms] by (simp_all add: is_label_def)

lemma minmax_labels:
  assumes "no_linebreak T" "no_linebreak Ti" "no_linebreak NAN" "no_linebreak OP"
    "no_linebreak PTR_OR_VAL" "no_linebreak FUNC"
  shows "filter is_label (splitlines (ir_numba_atomic_minmax T Ti NAN OP PTR_OR_VAL FUNC)) =
     [''entry:'', ''lt_check:'', ''attempt:'', ''done:'']"
  unfolding minmax_lines [OF assms] by (simp add: is_label_def)

text \<open>
  C1, as the code has it. The \<open>define\<close> line, the labels and the blocks of the eight
  generated min/max functions, in the order of \<open>replacements\<close>. In each, \<open>entry\<close>, the first
  block, loads \<open>%ptrval\<close> from \<open>%ptr\<close>, computes \<open>%early_return\<close>
  as \<open>fcmp uno\<close> of \<open>%val\<close> and a reference, and branches to \<open>done\<close> when it is true and to
  \<open>lt_check\<close> otherwise; \<open>done\<close> returns \<open>%ptrval\<close> and does nothing else; the only \<open>cmpxchg\<close>
  is in \<open>attempt\<close>, which is entered from \<open>lt_check\<close> alone. So the early exit is taken
  without any attempt to swap. The reference is \<open>%ptrval\<close>, the loaded contents of the
  pointer, in the four plain functions (\<open>max\<close>, \<open>min\<close> for float and double), and \<open>%val\<close>
  itself in the four NaN-aware functions (\<open>nanmax\<close>, \<open>nanmin\<close>).
\<close>

theorem early_return_reference:
  \<open>map (\<lambda>(decl, fn).
          (lines_starting fn ''define '', filter is_label (splitlines fn),
           block fn ''entry'', block fn ''lt_check'', block fn ''attempt'', block fn ''done''))
     (take 8 (drop 5 replacements)) =
   map (\<lambda>(T, Ti, name, OP, reference).
          ([''define internal '' @ T @ '' @___numba_atomic_'' @ T @ ''_'' @ name @ ''('' @ T @
              ''* %ptr, '' @ T @ '' %val) alwaysinline {''],
           [''entry:'', ''lt_check:'', ''attempt:'', ''done:''],
           [''    %ptrval = load volatile '' @ T @ '', '' @ T @ ''* %ptr'',
            ''    ; Return early when:'',
            ''    ; - For nanmin / nanmax when val is a NaN'',
            ''    ; - For min / max when val or ptr is a NaN'',
            ''    %early_return = fcmp uno '' @ T @ '' %val, '' @ reference,
            ''    br i1 %early_return, label %done, label %lt_check'',
            []],
           [''    %dold = phi '' @ T @ '' [ %ptrval, %entry ], [ %dcas, %attempt ]'',
            ''    ; Continue attempts if dold less or greater than val (depending on whether min or max)'',
            ''    ; or if dold is NaN (for nanmin / nanmax)'',
            ''    %cmp = fcmp '' @ OP @ '' '' @ T @ '' %dold, %val'',
            ''    br i1 %cmp, label %attempt, label %done'',
            []],
           [''    ; Attempt to swap in the value'',
            ''    %old = bitcast '' @ T @ '' %dold to '' @ Ti,
            ''    %iptr = bitcast '' @ T @ ''* %ptr to '' @ Ti @ ''*'',
            ''    %new = bitcast '' @ T @ '' %val to '' @ Ti,
            ''    '',
            ''    %cas_success = cmpxchg volatile '' @ Ti @ ''* %iptr, '' @ Ti @ '' %old, '' @ Ti @
              '' %new monotonic monotonic'',
            ''    %cas = extractvalue { '' @ Ti @ '', i1 } %cas_success, 0'',
            [],
            ''    %dcas = bitcast '' @ Ti @ '' %cas to '' @ T,
            ''    br label %lt_check'',
            []],
           [''    ret '' @ T @ '' %ptrval'', ''}'']))
     [(''float'', ''i32'', ''max'', ''nnan olt'', ''%ptrval''),
      (''double'', ''i64'', ''max'', ''nnan olt'', ''%ptrval''),
      (''float'', ''i32'', ''min'', ''nnan ogt'', ''%ptrval''),
      (''double'', ''i64'', ''min'', ''nnan ogt'', ''%ptrval''),
      (''float'', ''i32'', ''nanmax'', ''ult'', ''%val''),
      (''double'', ''i64'', ''nanmax'', ''ult'', ''%val''),
      (''float'', ''i32'', ''nanmin'', ''ugt'', ''%val''),
      (''double'', ''i64'', ''nanmin'', ''ugt'', ''%val'')]\<close>
  unfolding minmax_entries list.map
  by (simp add: minmax_define_line minmax_labels minmax_blocks is_linebreak_def)

text \<open>
  The generated \<open>nanmax\<close> for float does not compare \<open>%val\<close> with the loaded pointer value,
  and the generated plain \<open>max\<close> for float does not compare \<open>%val\<close> with itself.
\<close>

theorem early_return_reference_counterexample:
  \<open>lines_starting (snd (replacements ! 9)) ''define '' =
     [''define internal float @___numba_atomic_float_nanmax(float* %ptr, float %val) alwaysinline {'']
   \<and> lines_starting (snd (replacements ! 9)) ''    %early_return = '' \<noteq>
     [''    %early_return = fcmp uno float %val, %ptrval'']
   \<and> lines_starting (snd (replacements ! 5)) ''define '' =
     [''define internal float @___numba_atomic_float_max(float* %ptr, float %val) alwaysinline {'']
   \<and> lines_starting (snd (replacements ! 5)) ''    %early_return = '' \<noteq>
     [''    %early_return = fcmp uno float %val, %val'']\<close>
proof -
  have a: "snd (replacements ! 9) = ir_numba_atomic_minmax ''float'' ''i32'' ''nan'' ''ult'' [] ''max''"
    by (simp add: replacements_def)
  have b: "snd (replacements ! 5) = ir_numba_atomic_minmax ''float'' ''i32'' [] ''nnan olt'' ''ptr'' ''max''"
    by (simp add: replacements_def)
  show ?thesis
    unfolding a b by (simp add: minmax_define_line minmax_early_return_line is_linebreak_def)
qed

subsection \<open>Replacement in a text\<close>

lemma startswith_take: "startswith s p = (take (length p) s = p)"
  by (induction s p rule: startswith.induct) auto

lemma startswith_prefix_of_longer:
  "length p \<le> length a \<Longrightarrow> startswith (a @ r) p = startswith a p"
  by (simp add: startswith_take)

lemma replace_scan_match:
  "old \<noteq> [] \<Longrightarrow> replace_scan old new (old @ r) = new @ replace_scan old new r"
  by (cases old) (simp_all add: startswith_take)

lemma replace_scan_nomatch:
  "\<not> startswith (c # cs) old \<Longrightarrow> replace_scan old new (c # cs) = c # replace_scan old new cs"
  by simp

lemma replace_scan_absent:
  "\<not> contains s old \<Longrightarrow> replace_scan old new s = s"
  by (induction s) auto

lemma str_replace_absent:
  "\<not> contains s old \<Longrightarrow> str_replace s old new = s"
  by (cases s) (auto simp: str_replace_def replace_scan_absent)

lemma startswith_obtain: "startswith s p \<Longrightarrow> \<exists>r. s = p @ r"
  by (induction s p rule: startswith.induct) auto

lemma replace_scan_same:
  "old \<noteq> [] \<Longrightarrow> replace_scan old old s = s"
proof (induction s rule: length_induct)
  case (1 s)
  show ?case
  proof (cases s)
    case Nil
    then show ?thesis by simp
  next
    case (Cons c cs)
    show ?thesis
    proof (cases "startswith s old")
      case True
      then obtain r where r: "s = old @ r" using startswith_obtain by blast
      have "length r < length s" using r 1(2) by simp
      with 1 have "replace_scan old old r = r" by blast
      then show ?thesis using r 1(2) by (simp add: replace_scan_match)
    next
      case False
      have "length cs < length s" using Cons by simp
      with 1 have "replace_scan old old cs = cs" by blast
      then show ?thesis using False Cons by simp
    qed
  qed
qed

text \<open>A pattern without a border: an occurrence is replaced wherever it stands.\<close>

lemma straddle_border:
  assumes st: "startswith (a @ old @ b) old" and na: "\<not> startswith a old" and ane: "a \<noteq> []"
  shows "\<exists>k. 0 < k \<and> k < length old \<and> take k old = drop (length old - k) old"
proof -
  have lt: "length a < length old"
  proof (rule ccontr)
    assume "\<not> length a < length old"
    then have "length old \<le> length a" by simp
    from startswith_prefix_of_longer [OF this] st na show False by simp
  qed
  from st have e: "take (length old) (a @ old @ b) = old" by (simp add: startswith_take)
  let ?k = "length old - length a"
  have o: "old = a @ take ?k old" using e lt by simp
  have "drop (length a) old = take ?k old"
    using o by (metis append_eq_conv_conj)
  then have "take ?k old = drop (length old - ?k) old" using lt by simp
  moreover have "1 \<le> length a" using ane by (cases a) auto
  then have "0 < ?k" "?k < length old" using lt by arith+
  ultimately show ?thesis by blast
qed

lemma replace_scan_unbordered:
  assumes ub: "\<forall>k. 0 < k \<and> k < length old \<longrightarrow> take k old \<noteq> drop (length old - k) old"
    and ne: "old \<noteq> []"
  shows "replace_scan old new (a @ old @ b) =
           replace_scan old new a @ new @ replace_scan old new b"
proof (induction a rule: length_induct)
  case (1 a)
  show ?case
  proof (cases a)
    case Nil
    then show ?thesis using ne by (simp add: replace_scan_match)
  next
    case (Cons c cs)
    show ?thesis
    proof (cases "startswith a old")
      case True
      then obtain r where r: "a = old @ r" using startswith_obtain by blast
      have "length r < length a" using r ne by simp
      with 1 have "replace_scan old new (r @ old @ b) =
           replace_scan old new r @ new @ replace_scan old new b" by blast
      then show ?thesis using r ne by (simp add: replace_scan_match)
    next
      case False
      have "\<not> startswith (a @ old @ b) old"
        using straddle_border [of a old b] False ub Cons by blast
      then have l: "replace_scan old new (a @ old @ b) = c # replace_scan old new (cs @ old @ b)"
        using Cons by simp
      have "length cs < length a" using Cons by simp
      with 1 have "replace_scan old new (cs @ old @ b) =
           replace_scan old new cs @ new @ replace_scan old new b" by blast
      then show ?thesis using l False Cons by simp
    qed
  qed
qed

text \<open>A separator that no occurrence of the pattern can touch.\<close>

lemma replace_scan_inside_separator:
  "p \<noteq> [] \<Longrightarrow> hd p \<notin> set m \<Longrightarrow> replace_scan p r (m @ b) = m @ replace_scan p r b"
proof (induction m)
  case Nil
  then show ?case by simp
next
  case (Cons c m)
  then have "\<not> startswith ((c # m) @ b) p" by (cases p) auto
  then show ?case using Cons by simp
qed

lemma straddle_separator:
  assumes st: "startswith (a @ m @ b) p" and na: "\<not> startswith a p"
    and pne: "p \<noteq> []" and mne: "m \<noteq> []"
  shows "last p \<in> set m \<or> last m \<in> set p"
proof -
  have lt: "length a < length p"
  proof (rule ccontr)
    assume "\<not> length a < length p"
    then have "length p \<le> length a" by simp
    from startswith_prefix_of_longer [OF this] st na show False by simp
  qed
  from st obtain r where r: "a @ m @ b = p @ r" using startswith_obtain by blast
  then obtain q where q: "p = a @ q" "m @ b = q @ r"
    using lt by (metis append_eq_append_conv2 length_append not_add_less1)
  have qne: "q \<noteq> []" using q(1) lt by auto
  show ?thesis
  proof (cases "length q \<le> length m")
    case True
    then obtain m2 where "m = q @ m2"
      using q(2) by (metis append_eq_append_conv_if append_take_drop_id)
    then have "last q \<in> set m" using qne by auto
    then show ?thesis using q(1) qne by simp
  next
    case False
    then obtain q2 where "q = m @ q2"
      using q(2) by (metis append_eq_append_conv_if append_take_drop_id)
    then have "last m \<in> set p" using q(1) mne by auto
    then show ?thesis by simp
  qed
qed

lemma replace_scan_separator:
  assumes pne: "p \<noteq> []" and mne: "m \<noteq> []"
    and h: "hd p \<notin> set m" and l: "last p \<notin> set m" and lm: "last m \<notin> set p"
  shows "replace_scan p r (a @ m @ b) = replace_scan p r a @ m @ replace_scan p r b"
proof (induction a rule: length_induct)
  case (1 a)
  show ?case
  proof (cases a)
    case Nil
    then show ?thesis using replace_scan_inside_separator [OF pne h] by simp
  next
    case (Cons c cs)
    show ?thesis
    proof (cases "startswith a p")
      case True
      then obtain s where s: "a = p @ s" using startswith_obtain by blast
      have "length s < length a" using s pne by simp
      with 1 have "replace_scan p r (s @ m @ b) =
           replace_scan p r s @ m @ replace_scan p r b" by blast
      then show ?thesis using s pne by (simp add: replace_scan_match)
    next
      case False
      have "\<not> startswith (a @ m @ b) p"
        using straddle_separator [of a m b p] False pne mne l lm by blast
      then have e: "replace_scan p r (a @ m @ b) = c # replace_scan p r (cs @ m @ b)"
        using Cons by simp
      have "length cs < length a" using Cons by simp
      with 1 have "replace_scan p r (cs @ m @ b) =
           replace_scan p r cs @ m @ replace_scan p r b" by blast
      then show ?thesis using e False Cons by simp
    qed
  qed
qed

subsection \<open>The removal of immarg\<close>

lemma immarg_unbordered:
  "\<forall>k. 0 < k \<and> k < length ''immarg'' \<longrightarrow>
       take k ''immarg'' \<noteq> drop (length ''immarg'' - k) ''immarg''"
proof (intro allI impI)
  fix k :: nat
  assume "0 < k \<and> k < length ''immarg''"
  then have "k = 1 \<or> k = 2 \<or> k = 3 \<or> k = 4 \<or> k = 5" by auto
  then show "take k ''immarg'' \<noteq> drop (length ''immarg'' - k) ''immarg''"
    by (elim disjE) simp_all
qed

lemma str_replace_immarg_split:
  "str_replace (a @ ''immarg'' @ b) ''immarg'' [] =
     str_replace a ''immarg'' [] @ str_replace b ''immarg'' []"
  using replace_scan_unbordered [OF immarg_unbordered, of "[]" a b]
  by (simp add: str_replace_def)

lemma foldl_separator:
  "\<forall>(p, r) \<in> set reps. p \<noteq> [] \<and> hd p \<notin> set m \<and> last p \<notin> set m \<and> last m \<notin> set p \<Longrightarrow>
   m \<noteq> [] \<Longrightarrow>
   foldl (\<lambda>s (decl, fn). str_replace s decl fn) (a @ m @ b) reps =
     foldl (\<lambda>s (decl, fn). str_replace s decl fn) a reps @ m @
     foldl (\<lambda>s (decl, fn). str_replace s decl fn) b reps"
proof (induction reps arbitrary: a b)
  case Nil
  then show ?case by simp
next
  case (Cons pr reps)
  obtain p r where pr: "pr = (p, r)" by (cases pr)
  from Cons.prems pr have c: "p \<noteq> []" "hd p \<notin> set m" "last p \<notin> set m" "last m \<notin> set p"
    by auto
  have "str_replace (a @ m @ b) p r = str_replace a p r @ m @ str_replace b p r"
    using replace_scan_separator [OF c(1) Cons.prems(2) c(2) c(3) c(4)] c(1)
    by (simp add: str_replace_def)
  then show ?case using Cons pr by simp
qed

lemma replacements_split: "replacements = butlast replacements @ [(''immarg'', [])]"
  by (simp add: replacements_def)

lemma declarations_apart_from_immarg:
  "\<forall>(p, r) \<in> set (butlast replacements).
     p \<noteq> [] \<and> hd p \<notin> set ''immarg'' \<and> last p \<notin> set ''immarg'' \<and> last ''immarg'' \<notin> set p"
  by (simp add: replacements_def)

lemma llvm_replace_steps:
  "llvm_replace x =
     llvm150_to_70_ir
       (str_replace (foldl (\<lambda>s (decl, fn). str_replace s decl fn) x (butlast replacements))
          ''immarg'' [])"
proof -
  have "foldl (\<lambda>s (decl, fn). str_replace s decl fn) x replacements =
        foldl (\<lambda>s (decl, fn). str_replace s decl fn) x (butlast replacements @ [(''immarg'', [])])"
    using replacements_split by simp
  then show ?thesis unfolding llvm_replace_def by (simp only: foldl_append foldl.simps prod.case)
qed

lemma mangled_symbol:
  "llvm_replace ''define void @my_immarg_fn()'' = Inr ''define void @my__fn()''"
  by (simp add: llvm_replace_def replacements_def str_replace_def llvm150_to_70_ir_def
      splitlines_def convert_line_def is_linebreak_def)

text \<open>
  C10. \<open>llvm_replace\<close> removes \<open>immarg\<close> by one replacement over the whole text, after the
  declarations have been replaced and before the text is split into lines. An occurrence
  is deleted wherever it stands: the result for \<open>a @ immarg @ b\<close> is the conversion of the
  two sides put together, each with its declarations replaced and its own occurrences
  removed. So a symbol whose name contains \<open>immarg\<close> is changed.
\<close>

theorem immarg_removed_everywhere:
  "llvm_replace (a @ ''immarg'' @ b) =
     llvm150_to_70_ir
       (str_replace (foldl (\<lambda>s (decl, fn). str_replace s decl fn) a (butlast replacements))
          ''immarg'' [] @
        str_replace (foldl (\<lambda>s (decl, fn). str_replace s decl fn) b (butlast replacements))
          ''immarg'' [])
   \<and> llvm_replace ''define void @my_immarg_fn()'' = Inr ''define void @my__fn()''"
proof -
  let ?D = "\<lambda>x. foldl (\<lambda>s (decl, fn). str_replace s decl fn) x (butlast replacements)"
  have "?D (a @ ''immarg'' @ b) = ?D a @ ''immarg'' @ ?D b"
    by (rule foldl_separator [OF declarations_apart_from_immarg]) simp
  then have "str_replace (?D (a @ ''immarg'' @ b)) ''immarg'' [] =
             str_replace (?D a) ''immarg'' [] @ str_replace (?D b) ''immarg'' []"
    by (simp only: str_replace_immarg_split)
  then have "llvm_replace (a @ ''immarg'' @ b) =
     llvm150_to_70_ir (str_replace (?D a) ''immarg'' [] @ str_replace (?D b) ''immarg'' [])"
    by (simp only: llvm_replace_steps)
  then show ?thesis using mangled_symbol by blast
qed

subsection \<open>Occurrences of a pattern\<close>

lemma contains_iff: "contains s p = (\<exists>a b. s = a @ p @ b)"
proof (induction s)
  case Nil
  then show ?case by auto
next
  case (Cons c cs)
  show ?case
  proof
    assume "contains (c # cs) p"
    then consider "startswith (c # cs) p" | "contains cs p" by auto
    then show "\<exists>a b. c # cs = a @ p @ b"
    proof cases
      case 1
      then obtain r where "c # cs = p @ r" using startswith_obtain by blast
      then have "c # cs = [] @ p @ r" by simp
      then show ?thesis by blast
    next
      case 2
      then obtain a b where "cs = a @ p @ b" using Cons by blast
      then have "c # cs = (c # a) @ p @ b" by simp
      then show ?thesis by blast
    qed
  next
    assume "\<exists>a b. c # cs = a @ p @ b"
    then obtain a b where ab: "c # cs = a @ p @ b" by blast
    show "contains (c # cs) p"
    proof (cases a)
      case Nil
      then have "startswith (c # cs) p" using ab by (simp add: startswith_iff)
      then show ?thesis by simp
    next
      case (Cons x a')
      then have "cs = a' @ p @ b" using ab by simp
      then have "contains cs p" using Cons.IH by blast
      then show ?thesis by simp
    qed
  qed
qed

lemma contains_mono: "contains s p \<Longrightarrow> contains (u @ s @ v) p"
  unfolding contains_iff by (metis append.assoc)

lemma contains_char: "contains s p \<Longrightarrow> c \<in> set p \<Longrightarrow> c \<in> set s"
  unfolding contains_iff by auto

text \<open>An occurrence is on one side of a character that the pattern does not have.\<close>

lemma occurrence_beside_char:
  assumes e: "x @ c # y = a @ p @ b" and c: "c \<notin> set p"
  shows "(\<exists>b'. x = a @ p @ b') \<or> (\<exists>a'. y = a' @ p @ b)"
proof -
  from e consider us where "x = a @ us" "us @ c # y = p @ b"
    | us where "a = x @ us" "c # y = us @ p @ b"
    by (auto simp: append_eq_append_conv2)
  then show ?thesis
  proof cases
    case 1
    from 1(2) consider ws where "us = p @ ws"
      | ws where "p = us @ ws" "c # y = ws @ b" "ws \<noteq> []"
      by (auto simp: append_eq_append_conv2 append_eq_Cons_conv Cons_eq_append_conv)
    then show ?thesis
    proof cases
      case 1
      then show ?thesis using \<open>x = a @ us\<close> by simp
    next
      case 2
      then have "c \<in> set p" by (cases ws) auto
      then show ?thesis using c by simp
    qed
  next
    case 2
    show ?thesis
    proof (cases us)
      case Nil
      then have "c # y = p @ b" using 2 by simp
      then show ?thesis
      proof (cases p)
        case Nil
        then have "x = a @ p @ []" using 2(1) \<open>us = []\<close> by simp
        then show ?thesis by blast
      next
        case (Cons d p')
        then show ?thesis using \<open>c # y = p @ b\<close> c by auto
      qed
    next
      case (Cons d us')
      then have "y = us' @ p @ b" using 2 by simp
      then show ?thesis by blast
    qed
  qed
qed

lemma contains_beside_char:
  "c \<notin> set p \<Longrightarrow> contains (x @ c # y) p = (contains x p \<or> contains y p)"
proof
  assume c: "c \<notin> set p" and "contains (x @ c # y) p"
  then obtain a b where "x @ c # y = a @ p @ b" unfolding contains_iff by blast
  from occurrence_beside_char [OF this c] show "contains x p \<or> contains y p"
    unfolding contains_iff by blast
next
  assume "contains x p \<or> contains y p"
  then show "contains (x @ c # y) p"
    using contains_mono [of x p "[]" "c # y"] contains_mono [of y p "x @ [c]" "[]"] by auto
qed

text \<open>
  A replacement text is isolating for a pattern when it starts and ends with a character
  that the pattern does not have and has no occurrence of the pattern.
\<close>

lemma contains_around_isolating:
  assumes r: "r \<noteq> []" "hd r \<notin> set p" "last r \<notin> set p" "\<not> contains r p"
  shows "contains (u @ r @ v) p = (contains u p \<or> contains v p)"
proof (cases "tl r")
  case Nil
  then obtain c where rc: "r = [c]" using r(1) by (cases r) auto
  then have c: "c \<notin> set p" using r(2) by simp
  show ?thesis unfolding rc using contains_beside_char [OF c] by simp
next
  case (Cons d ds)
  then obtain c where rc: "r = c # d # ds" using r(1) by (cases r) auto
  obtain mid e where me: "d # ds = mid @ [e]"
    by (metis append_butlast_last_id list.distinct(1))
  have c: "c \<notin> set p" using r(2) rc by simp
  have e: "e \<notin> set p" using r(3) rc me by simp
  have nb: "\<not> contains mid p"
    using r(4) contains_mono [of mid p "[c]" "[e]"] rc me by auto
  have "contains (u @ r @ v) p = contains (u @ c # (mid @ e # v)) p"
    using rc me by simp
  also have "\<dots> = (contains u p \<or> contains (mid @ e # v) p)"
    using contains_beside_char [OF c] by simp
  also have "\<dots> = (contains u p \<or> contains v p)"
    using contains_beside_char [OF e] nb by simp
  finally show ?thesis .
qed

text \<open>The first occurrence of the pattern, and what the scan does up to it.\<close>

lemma startswith_shorter:
  assumes "startswith (a @ butlast p) p"
  shows "startswith (a @ p @ t) p"
proof -
  from assms obtain r where r: "a @ butlast p = p @ r" using startswith_obtain by blast
  show ?thesis
  proof (cases "p = []")
    case True
    then show ?thesis by simp
  next
    case False
    then have "a @ p @ t = (a @ butlast p) @ (last p # t)" by simp
    also have "\<dots> = p @ (r @ last p # t)" unfolding r by simp
    finally show ?thesis unfolding startswith_iff by blast
  qed
qed

lemma first_occurrence:
  "p \<noteq> [] \<Longrightarrow> contains s p \<Longrightarrow>
   \<exists>gap t. s = gap @ p @ t \<and> \<not> contains (gap @ butlast p) p \<and>
      replace_scan p r s = gap @ r @ replace_scan p r t"
proof (induction s)
  case Nil
  then show ?case by simp
next
  case (Cons c cs)
  show ?case
  proof (cases "startswith (c # cs) p")
    case True
    then obtain t where t: "c # cs = p @ t" using startswith_obtain by blast
    have "\<not> contains (butlast p) p"
    proof
      assume "contains (butlast p) p"
      then obtain a b where "butlast p = a @ p @ b" unfolding contains_iff by blast
      then have "length (butlast p) = length (a @ p @ b)" by simp
      then have "length p - 1 = length a + length p + length b" by simp
      moreover have "1 \<le> length p" using Cons.prems(1) by (cases p) auto
      ultimately show False by arith
    qed
    moreover have "replace_scan p r (c # cs) = r @ replace_scan p r t"
      using t Cons.prems(1) by (metis replace_scan_match)
    ultimately have "c # cs = [] @ p @ t \<and> \<not> contains ([] @ butlast p) p \<and>
      replace_scan p r (c # cs) = [] @ r @ replace_scan p r t" using t by simp
    then show ?thesis by blast
  next
    case False
    then have "contains cs p" using Cons.prems(2) by simp
    from Cons.IH [OF Cons.prems(1) this] obtain gap t where
      g: "cs = gap @ p @ t" "\<not> contains (gap @ butlast p) p"
         "replace_scan p r cs = gap @ r @ replace_scan p r t" by blast
    have "\<not> startswith ((c # gap) @ butlast p) p"
      using startswith_shorter [of "c # gap" p t] False g(1) by auto
    then have "\<not> contains ((c # gap) @ butlast p) p" using g(2) by simp
    moreover have "replace_scan p r (c # cs) = (c # gap) @ r @ replace_scan p r t"
      using False g(3) by simp
    moreover have "c # cs = (c # gap) @ p @ t" using g(1) by simp
    ultimately show ?thesis by blast
  qed
qed

lemma replaced_has_no_occurrence:
  assumes q: "q \<noteq> []" and r: "r \<noteq> []" "hd r \<notin> set p" "last r \<notin> set p" "\<not> contains r p"
    and s: "q = p \<or> \<not> contains s p"
  shows "\<not> contains (replace_scan q r s) p"
  using s
proof (induction s rule: length_induct)
  case (1 s)
  show ?case
  proof (cases "contains s q")
    case False
    then have e: "replace_scan q r s = s" by (simp add: replace_scan_absent)
    from 1(2) False show ?thesis unfolding e by auto
  next
    case True
    from first_occurrence [OF q True] obtain gap t where
      g: "s = gap @ q @ t" "\<not> contains (gap @ butlast q) q"
         "replace_scan q r s = gap @ r @ replace_scan q r t" by blast
    have lt: "length t < length s" using g(1) q by simp
    have ng: "\<not> contains gap p"
    proof (cases "q = p")
      case True
      then show ?thesis using g(2) contains_mono [of gap p "[]" "butlast p"] by auto
    next
      case False
      then have "\<not> contains s p" using 1(2) by simp
      then show ?thesis using g(1) contains_mono [of gap p "[]" "q @ t"] by auto
    qed
    have "q = p \<or> \<not> contains t p"
      using 1(2) g(1) contains_mono [of t p "gap @ q" "[]"] by auto
    with 1(1) lt have "\<not> contains (replace_scan q r t) p" by blast
    then show ?thesis
      unfolding g(3) using contains_around_isolating [OF r] ng by simp
  qed
qed

subsection \<open>The declaration replacements are idempotent\<close>

lemma fold_keeps_absent:
  assumes "\<not> contains s p"
    and "\<forall>(q, r) \<in> set reps.
           q \<noteq> [] \<and> r \<noteq> [] \<and> hd r \<notin> set p \<and> last r \<notin> set p \<and> \<not> contains r p"
  shows "\<not> contains (foldl (\<lambda>s (decl, fn). str_replace s decl fn) s reps) p"
  using assms
proof (induction reps arbitrary: s)
  case Nil
  then show ?case by simp
next
  case (Cons qr reps)
  obtain q r where qr: "qr = (q, r)" by (cases qr)
  from Cons.prems(2) qr have c: "q \<noteq> []" "r \<noteq> []" "hd r \<notin> set p" "last r \<notin> set p"
    "\<not> contains r p" by auto
  have "\<not> contains (replace_scan q r s) p"
    using replaced_has_no_occurrence [OF c] Cons.prems(1) by blast
  then have "\<not> contains (str_replace s q r) p" using c(1) by (simp add: str_replace_def)
  from Cons.IH [OF this] Cons.prems(2) show ?case by (simp add: qr)
qed

lemma fold_removes:
  assumes "(p, r0) \<in> set reps"
    and "\<forall>(q, r) \<in> set reps.
           q \<noteq> [] \<and> r \<noteq> [] \<and> hd r \<notin> set p \<and> last r \<notin> set p \<and> \<not> contains r p"
  shows "\<not> contains (foldl (\<lambda>s (decl, fn). str_replace s decl fn) s reps) p"
  using assms
proof (induction reps arbitrary: s)
  case Nil
  then show ?case by simp
next
  case (Cons qr reps)
  obtain q r where qr: "qr = (q, r)" by (cases qr)
  from Cons.prems(2) qr have c: "q \<noteq> []" "r \<noteq> []" "hd r \<notin> set p" "last r \<notin> set p"
    "\<not> contains r p" by auto
  from Cons.prems(2) have rest: "\<forall>(q, r) \<in> set reps.
           q \<noteq> [] \<and> r \<noteq> [] \<and> hd r \<notin> set p \<and> last r \<notin> set p \<and> \<not> contains r p" by simp
  show ?case
  proof (cases "q = p")
    case True
    have "\<not> contains (replace_scan q r s) p"
      using replaced_has_no_occurrence [OF c] True by blast
    then have "\<not> contains (str_replace s q r) p" using c(1) by (simp add: str_replace_def)
    from fold_keeps_absent [OF this rest] show ?thesis by (simp add: qr)
  next
    case False
    then have "(p, r0) \<in> set reps" using Cons.prems(1) qr by auto
    from Cons.IH [OF this rest] show ?thesis by (simp add: qr)
  qed
qed

lemma fold_identity:
  "\<forall>(q, r) \<in> set reps. \<not> contains s q \<Longrightarrow>
   foldl (\<lambda>s (decl, fn). str_replace s decl fn) s reps = s"
proof (induction reps)
  case Nil
  then show ?case by simp
next
  case (Cons qr reps)
  obtain q r where qr: "qr = (q, r)" by (cases qr)
  then have "str_replace s q r = s" using Cons.prems by (simp add: str_replace_absent)
  then show ?case using Cons qr by simp
qed

lemma fold_idempotent:
  assumes "\<forall>(q, r) \<in> set reps. q \<noteq> [] \<and> c \<notin> set q \<and> d \<in> set q \<and>
             r \<noteq> [] \<and> hd r = c \<and> last r = c \<and> d \<notin> set r"
  shows "foldl (\<lambda>s (decl, fn). str_replace s decl fn)
           (foldl (\<lambda>s (decl, fn). str_replace s decl fn) x reps) reps =
         foldl (\<lambda>s (decl, fn). str_replace s decl fn) x reps"
proof (rule fold_identity, clarify)
  fix p r0
  assume m: "(p, r0) \<in> set reps"
  assume "contains (foldl (\<lambda>s (decl, fn). str_replace s decl fn) x reps) p"
  moreover have "\<forall>(q, r) \<in> set reps.
           q \<noteq> [] \<and> r \<noteq> [] \<and> hd r \<notin> set p \<and> last r \<notin> set p \<and> \<not> contains r p"
  proof clarify
    fix q r
    assume qr: "(q, r) \<in> set reps"
    from assms m have p: "c \<notin> set p" "d \<in> set p" by auto
    from assms qr have r: "q \<noteq> []" "r \<noteq> []" "hd r = c" "last r = c" "d \<notin> set r" by auto
    have "\<not> contains r p" using contains_char [of r p d] p(2) r(5) by blast
    then show "q \<noteq> [] \<and> r \<noteq> [] \<and> hd r \<notin> set p \<and> last r \<notin> set p \<and> \<not> contains r p"
      using p r by simp
  qed
  ultimately show False using fold_removes [OF m] by blast
qed

lemma template_binary_quote:
  "CHR 0x22 \<notin> set T \<Longrightarrow> CHR 0x22 \<notin> set Ti \<Longrightarrow> CHR 0x22 \<notin> set OP \<Longrightarrow> CHR 0x22 \<notin> set FUNC \<Longrightarrow>
   CHR 0x22 \<notin> set (ir_numba_atomic_binary T Ti OP FUNC)"
  by (simp add: ir_numba_atomic_binary_def ir_cas_def)

lemma template_binary_hd:
  "ir_numba_atomic_binary T Ti OP FUNC \<noteq> [] \<and> hd (ir_numba_atomic_binary T Ti OP FUNC) = CHR 0x0A"
  by (simp add: ir_numba_atomic_binary_def)

lemma template_binary_last:
  "last (ir_numba_atomic_binary T Ti OP FUNC) = CHR 0x0A"
  unfolding ir_numba_atomic_binary_def by (simp add: last_append)

lemma template_minmax_quote:
  "CHR 0x22 \<notin> set T \<Longrightarrow> CHR 0x22 \<notin> set Ti \<Longrightarrow> CHR 0x22 \<notin> set NAN \<Longrightarrow> CHR 0x22 \<notin> set OP \<Longrightarrow> CHR 0x22 \<notin> set PTR_OR_VAL \<Longrightarrow> CHR 0x22 \<notin> set FUNC \<Longrightarrow>
   CHR 0x22 \<notin> set (ir_numba_atomic_minmax T Ti NAN OP PTR_OR_VAL FUNC)"
  by (simp add: ir_numba_atomic_minmax_def ir_cas_def)

lemma template_minmax_hd:
  "ir_numba_atomic_minmax T Ti NAN OP PTR_OR_VAL FUNC \<noteq> [] \<and> hd (ir_numba_atomic_minmax T Ti NAN OP PTR_OR_VAL FUNC) = CHR 0x0A"
  by (simp add: ir_numba_atomic_minmax_def)

lemma template_minmax_last:
  "last (ir_numba_atomic_minmax T Ti NAN OP PTR_OR_VAL FUNC) = CHR 0x0A"
  unfolding ir_numba_atomic_minmax_def by (simp add: last_append)

lemma template_inc_quote:
  "CHR 0x22 \<notin> set T \<Longrightarrow> CHR 0x22 \<notin> set Tu \<Longrightarrow>
   CHR 0x22 \<notin> set (ir_numba_atomic_inc T Tu)"
  by (simp add: ir_numba_atomic_inc_def ir_cas_def)

lemma template_inc_hd:
  "ir_numba_atomic_inc T Tu \<noteq> [] \<and> hd (ir_numba_atomic_inc T Tu) = CHR 0x0A"
  by (simp add: ir_numba_atomic_inc_def)

lemma template_inc_last:
  "last (ir_numba_atomic_inc T Tu) = CHR 0x0A"
  unfolding ir_numba_atomic_inc_def by (simp add: last_append)

lemma template_dec_quote:
  "CHR 0x22 \<notin> set T \<Longrightarrow> CHR 0x22 \<notin> set Tu \<Longrightarrow>
   CHR 0x22 \<notin> set (ir_numba_atomic_dec T Tu)"
  by (simp add: ir_numba_atomic_dec_def ir_cas_def)

lemma template_dec_hd:
  "ir_numba_atomic_dec T Tu \<noteq> [] \<and> hd (ir_numba_atomic_dec T Tu) = CHR 0x0A"
  by (simp add: ir_numba_atomic_dec_def)

lemma template_dec_last:
  "last (ir_numba_atomic_dec T Tu) = CHR 0x0A"
  unfolding ir_numba_atomic_dec_def by (simp add: last_append)

lemma declarations_and_definitions:
  "\<forall>(q, r) \<in> set (butlast replacements).
     q \<noteq> [] \<and> CHR 0x0A \<notin> set q \<and> CHR 0x22 \<in> set q \<and>
     r \<noteq> [] \<and> hd r = CHR 0x0A \<and> last r = CHR 0x0A \<and> CHR 0x22 \<notin> set r"
  by (simp add: replacements_def template_binary_quote template_binary_hd template_binary_last template_minmax_quote template_minmax_hd template_minmax_last template_inc_quote template_inc_hd template_inc_last template_dec_quote template_dec_hd template_dec_last)

text \<open>
  C3, as the code has it. The first stage of \<open>llvm_replace\<close>, the replacement of the
  thirteen declarations by their definitions, is idempotent for every input text: after
  it no declaration pattern is left, so applying it to its own result changes nothing.
\<close>

theorem declaration_replacement_idempotent:
  "llvm_replace x =
     llvm150_to_70_ir
       (str_replace (foldl (\<lambda>s (decl, fn). str_replace s decl fn) x (butlast replacements))
          ''immarg'' [])
   \<and> foldl (\<lambda>s (decl, fn). str_replace s decl fn)
       (foldl (\<lambda>s (decl, fn). str_replace s decl fn) x (butlast replacements))
       (butlast replacements) =
     foldl (\<lambda>s (decl, fn). str_replace s decl fn) x (butlast replacements)"
  using llvm_replace_steps fold_idempotent [OF declarations_and_definitions] by blast

lemma no_declaration_immimmargarg:
  "foldl (\<lambda>s (decl, fn). str_replace s decl fn) ''immimmargarg'' (butlast replacements) =
     ''immimmargarg''"
  by (rule fold_identity) (simp add: replacements_def)

lemma no_declaration_immarg:
  "foldl (\<lambda>s (decl, fn). str_replace s decl fn) ''immarg'' (butlast replacements) = ''immarg''"
  by (rule fold_identity) (simp add: replacements_def)

lemma no_declaration_willreturn:
  "foldl (\<lambda>s (decl, fn). str_replace s decl fn) ''attributes #0 = { willreturn }''
     (butlast replacements) = ''attributes #0 = { willreturn }''"
  by (rule fold_identity) (simp add: replacements_def)

lemma no_declaration_empty_group:
  "foldl (\<lambda>s (decl, fn). str_replace s decl fn) ''attributes #0 = {  }''
     (butlast replacements) = ''attributes #0 = {  }''"
  by (rule fold_identity) (simp add: replacements_def)

text \<open>
  \<open>llvm_replace\<close> as a whole is not idempotent: the removal of \<open>immarg\<close> can leave a new
  \<open>immarg\<close>, which a second application removes, and an attribute group with
  \<open>willreturn\<close> alone becomes a group that the second application does not match.
\<close>

theorem llvm_replace_idempotent_counterexample:
  "llvm_replace ''immimmargarg'' = Inr ''immarg''
   \<and> llvm_replace ''immarg'' = Inr []
   \<and> llvm_replace ''attributes #0 = { willreturn }'' = Inr ''attributes #0 = {  }''
   \<and> llvm_replace ''attributes #0 = {  }'' = Inl AttributeError"
proof -
  have a: "str_replace ''immimmargarg'' ''immarg'' [] = ''immarg''" by code_simp
  have b: "str_replace ''immarg'' ''immarg'' [] = []" by code_simp
  have c: "str_replace ''attributes #0 = { willreturn }'' ''immarg'' [] =
           ''attributes #0 = { willreturn }''" by code_simp
  have d: "str_replace ''attributes #0 = {  }'' ''immarg'' [] = ''attributes #0 = {  }''"
    by code_simp
  have a': "llvm150_to_70_ir ''immarg'' = Inr ''immarg''" by code_simp
  have b': "llvm150_to_70_ir [] = Inr []" by code_simp
  have c': "llvm150_to_70_ir ''attributes #0 = { willreturn }'' = Inr ''attributes #0 = {  }''"
    by code_simp
  have d': "llvm150_to_70_ir ''attributes #0 = {  }'' = Inl AttributeError" by code_simp
  show ?thesis
    unfolding llvm_replace_steps no_declaration_immimmargarg no_declaration_immarg
      no_declaration_willreturn no_declaration_empty_group a b c d a' b' c' d'
    by simp
qed

subsection \<open>Attribute groups\<close>

lemma word_not_space: "is_word c \<Longrightarrow> \<not> is_space c"
  by (auto simp: is_word_def is_space_def Let_def)

lemma split_from_token:
  "\<forall>c \<in> set t. \<not> is_space c \<Longrightarrow> split_from cur (t @ rest) = split_from (cur @ t) rest"
  by (induction t arbitrary: cur) auto

lemma str_split_join:
  "\<forall>t \<in> set toks. t \<noteq> [] \<and> (\<forall>c \<in> set t. \<not> is_space c) \<Longrightarrow>
   str_split (join '' '' toks) = toks"
proof (induction toks)
  case Nil
  then show ?case by (simp add: str_split_def)
next
  case (Cons x toks)
  show ?case
  proof (cases toks)
    case Nil
    then show ?thesis
      using Cons.prems split_from_token [of x "[]" "[]"] by (simp add: str_split_def)
  next
    case (Cons y ys)
    have "split_from [] (x @ '' '' @ join '' '' (y # ys)) =
          split_from x ('' '' @ join '' '' (y # ys))"
      using split_from_token [of x "[]"] Cons.prems by simp
    also have "\<dots> = x # split_from [] (join '' '' (y # ys))"
      using Cons.prems by (simp add: is_space_def)
    finally show ?thesis using Cons.IH Cons.prems Cons by (simp add: str_split_def)
  qed
qed

text \<open>The body of a group written as tokens with one space between them.\<close>

lemma join_chars:
  "c \<in> set (join '' '' toks) \<Longrightarrow> c = CHR '' '' \<or> (\<exists>t \<in> set toks. c \<in> set t)"
  by (induction "'' ''" toks rule: join.induct) auto

lemma join_hd:
  "toks \<noteq> [] \<Longrightarrow> hd toks \<noteq> [] \<Longrightarrow> join '' '' toks \<noteq> [] \<and> hd (join '' '' toks) = hd (hd toks)"
  by (induction "'' ''" toks rule: join.induct) auto

lemma join_token:
  "t \<in> set toks \<Longrightarrow> \<exists>a b. join '' '' toks = a @ t @ b"
proof (induction "'' ''" toks rule: join.induct)
  case 1
  then show ?case by simp
next
  case (2 x)
  then show ?case by (metis append_Nil append_Nil2 join.simps(2) set_ConsD empty_iff empty_set)
next
  case (3 x y ys)
  show ?case
  proof (cases "t = x")
    case True
    then show ?thesis by (metis append_Nil join.simps(3))
  next
    case False
    with 3 obtain a b where "join '' '' (y # ys) = a @ t @ b" by auto
    then have "join '' '' (x # y # ys) = (x @ '' '' @ a) @ t @ b" by simp
    then show ?thesis by blast
  qed
qed

text \<open>The first occurrence of a pattern is the one that \<open>replace\<close> takes first.\<close>

lemma replace_scan_first:
  "p \<noteq> [] \<Longrightarrow> \<not> contains (a @ butlast p) p \<Longrightarrow>
   replace_scan p r (a @ p @ t) = a @ r @ replace_scan p r t"
proof (induction a)
  case Nil
  then show ?case by (simp add: replace_scan_match)
next
  case (Cons c a)
  have e: "c # a @ p @ t = (c # a @ butlast p) @ last p # t"
    using append_butlast_last_id [OF Cons.prems(1)]
    by (metis append.assoc append_Cons append_Nil)
  have "length p \<le> length (c # a @ butlast p)" by simp
  from startswith_prefix_of_longer [OF this, of "last p # t"]
  have "startswith ((c # a @ butlast p) @ last p # t) p = startswith (c # a @ butlast p) p" .
  moreover have "\<not> startswith (c # a @ butlast p) p" using Cons.prems(2) by simp
  ultimately have "\<not> startswith (c # a @ p @ t) p" unfolding e by blast
  then have "replace_scan p r ((c # a) @ p @ t) = c # replace_scan p r (a @ p @ t)" by simp
  moreover have "\<not> contains (a @ butlast p) p" using Cons.prems(2) by simp
  ultimately show ?case using Cons.IH Cons.prems(1) by simp
qed

lemma contains_same_length: "contains s p \<Longrightarrow> length s = length p \<Longrightarrow> s = p"
  unfolding contains_iff by auto

lemma takeWhile_run:
  "\<forall>c \<in> set a. P c \<Longrightarrow> \<not> P x \<Longrightarrow> takeWhile P (a @ x # r) = a"
  by simp

lemma group_facts:
  assumes "toks \<noteq> []" and "\<forall>t \<in> set toks. t \<noteq> [] \<and> (\<forall>c \<in> set t. is_word c)"
  shows "join '' '' toks \<noteq> []"
    and "is_word (hd (join '' '' toks))"
    and "\<forall>c \<in> set (join '' '' toks). is_word c \<or> is_space c"
proof -
  have h: "hd toks \<in> set toks" using assms(1) by simp
  then have "hd toks \<noteq> []" using assms(2) by blast
  from join_hd [OF assms(1) this]
  show "join '' '' toks \<noteq> []" and "is_word (hd (join '' '' toks))"
    using assms(2) h by auto
  show "\<forall>c \<in> set (join '' '' toks). is_word c \<or> is_space c"
  proof
    fix c assume "c \<in> set (join '' '' toks)"
    from join_chars [OF this] show "is_word c \<or> is_space c"
      using assms(2) by (auto simp: is_space_def)
  qed
qed

lemma canonical_match:
  assumes ds: "ds \<noteq> []" "\<forall>c \<in> set ds. is_digit c"
    and g: "g \<noteq> []" "\<forall>c \<in> set g. is_word c \<or> is_space c"
  shows "re_attributes_def_match (''attributes #'' @ ds @ '' = { '' @ g @ '' }'') = Some g"
proof -
  let ?line = "''attributes #'' @ ds @ '' = { '' @ g @ '' }''"
  let ?W = "\<lambda>c. is_word c \<or> is_space c"
  have sp: "\<not> is_digit CHR '' ''" by (simp add: is_digit_def)
  have br: "\<not> ?W CHR ''}''" by (simp add: is_word_def is_space_def)
  have sw: "?W CHR '' ''" by (simp add: is_space_def)
  have mem: "g \<in> set (re_attributes_def ?line)"
    unfolding re_attributes_def_iff using ds g by (intro exI [of _ ds] exI [of _ "[]"]) simp
  have uniq: "g' = g" if "g' \<in> set (re_attributes_def ?line)" for g'
  proof -
    from that obtain ds' rest where
      e: "?line = ''attributes #'' @ ds' @ '' = { '' @ g' @ '' }'' @ rest"
      and ds': "\<forall>c \<in> set ds'. is_digit c" and g': "\<forall>c \<in> set g'. ?W c"
      unfolding re_attributes_def_iff by blast
    from e have e1: "ds @ CHR '' '' # (''= { '' @ g @ '' }'') =
                     ds' @ CHR '' '' # (''= { '' @ g' @ '' }'' @ rest)" by simp
    have "ds = ds'"
      using takeWhile_run [OF ds(2) sp] takeWhile_run [OF ds' sp] e1 by metis
    with e1 have e2: "(g @ '' '') @ CHR ''}'' # [] = (g' @ '' '') @ CHR ''}'' # rest" by simp
    have a: "\<forall>c \<in> set (g @ '' ''). ?W c" using g(2) sw by simp
    have b: "\<forall>c \<in> set (g' @ '' ''). ?W c" using g' sw by simp
    have "g @ '' '' = g' @ '' ''"
      using takeWhile_run [OF a br] takeWhile_run [OF b br] e2 by metis
    then show "g' = g" by simp
  qed
  show ?thesis
  proof (cases "re_attributes_def ?line")
    case Nil
    with mem show ?thesis by simp
  next
    case (Cons x xs)
    then have "x \<in> set (re_attributes_def ?line)" by simp
    from uniq [OF this] Cons show ?thesis by (simp add: re_attributes_def_match_def)
  qed
qed

lemma canonical_first_occurrence:
  assumes ds: "\<forall>c \<in> set ds. is_digit c"
    and g: "g \<noteq> []" "is_word (hd g)" "\<forall>c \<in> set g. is_word c \<or> is_space c"
    and w: "CHR ''w'' \<in> set g"
  shows "replace_scan g r (''attributes #'' @ ds @ '' = { '' @ g @ '' }'') =
         ''attributes #'' @ ds @ '' = { '' @ r @ '' }''"
proof -
  have brace: "CHR ''{'' \<notin> set g"
    using g(3) by (auto simp: is_word_def is_space_def)
  have wd: "CHR ''w'' \<notin> set ds" using ds by (auto simp: is_digit_def)
  have hds: "hd g \<noteq> CHR '' ''" "hd g \<noteq> CHR ''}''"
    using g(2) by (auto simp: is_word_def)
  have hg: "hd g \<in> set g" using g(1) by simp
  define x where "x = ''attributes #'' @ ds @ '' = ''"
  define y where "y = CHR '' '' # butlast g"
  define t where "t = '' }''"
  have xw: "CHR ''w'' \<notin> set x" using wd by (simp add: x_def)
  have "\<not> contains x g" using contains_char [OF _ w, of x] xw by blast
  moreover have "\<not> contains y g"
  proof
    assume "contains y g"
    moreover have "length y = length g" using g(1) by (simp add: y_def)
    ultimately have "y = g" by (rule contains_same_length)
    then have "hd g = CHR '' ''" unfolding y_def by (metis list.sel(1))
    with hds show False by simp
  qed
  ultimately have "\<not> contains (x @ CHR ''{'' # y) g"
    using contains_beside_char [OF brace] by blast
  moreover have "x @ CHR ''{'' # y = (''attributes #'' @ ds @ '' = { '') @ butlast g"
    by (simp add: x_def y_def)
  ultimately have n: "\<not> contains ((''attributes #'' @ ds @ '' = { '') @ butlast g) g" by metis
  have "hd g \<notin> set t" using hds by (simp add: t_def)
  then have "\<not> contains t g" using contains_char [OF _ hg, of t] by blast
  then have "replace_scan g r t = t" by (rule replace_scan_absent)
  with replace_scan_first [OF g(1) n, of r t] show ?thesis by (simp add: t_def)
qed

lemma convert_canonical:
  assumes ds: "ds \<noteq> []" "\<forall>c \<in> set ds. is_digit c"
    and toks: "toks \<noteq> []" "\<forall>t \<in> set toks. t \<noteq> [] \<and> (\<forall>c \<in> set t. is_word c)"
  shows "convert_line (''attributes #'' @ ds @ '' = { '' @ join '' '' toks @ '' }'') =
         Inr (''attributes #'' @ ds @ '' = { '' @
              join '' '' (filter (\<lambda>t. t \<noteq> ''willreturn'') toks) @ '' }'')"
proof -
  define g where "g = join '' '' toks"
  define attrs where "attrs = join '' '' (filter (\<lambda>t. t \<noteq> ''willreturn'') toks)"
  define line where "line = ''attributes #'' @ ds @ '' = { '' @ g @ '' }''"
  have g: "g \<noteq> []" "is_word (hd g)" "\<forall>c \<in> set g. is_word c \<or> is_space c"
    unfolding g_def using group_facts [OF toks] by blast+
  have m: "re_attributes_def_match line = Some g"
    unfolding line_def using canonical_match [OF ds g(1) g(3)] .
  have sp: "str_split g = toks"
    unfolding g_def using toks(2) word_not_space by (intro str_split_join) blast
  have st: "startswith line ''attributes #''" unfolding line_def by simp
  have c: "convert_line line = Inr (replace_scan g attrs line)"
    using st m sp g(1) by (simp add: convert_line_def str_replace_def attrs_def)
  have "replace_scan g attrs line = ''attributes #'' @ ds @ '' = { '' @ attrs @ '' }''"
  proof (cases "''willreturn'' \<in> set toks")
    case False
    then have "filter (\<lambda>t. t \<noteq> ''willreturn'') toks = toks" by (auto simp: filter_id_conv)
    then have "attrs = g" by (simp add: attrs_def g_def)
    then show ?thesis using replace_scan_same [OF g(1), of line] by (simp add: line_def)
  next
    case True
    from join_token [OF this] obtain a b where "g = a @ ''willreturn'' @ b"
      unfolding g_def by blast
    then have "CHR ''w'' \<in> set g" by simp
    from canonical_first_occurrence [OF ds(2) g this, of attrs]
    show ?thesis by (simp add: line_def)
  qed
  with c show ?thesis by (simp add: line_def g_def attrs_def)
qed

lemma loop_lines:
  "list_all2 (\<lambda>line line'. convert_line line = Inr line') lines ls \<Longrightarrow>
   llvm150_to_70_ir_loop buf lines = Inr (buf @ ls)"
  by (induction lines ls arbitrary: buf rule: list_all2_induct) auto

text \<open>
  C4, as the code has it. The conversion works line by line: when every line converts, the result
  is the converted lines joined by a newline. A line that does not start with
  \<open>attributes #\<close> is kept as it is. In an attribute group written as
  \<open>attributes #\<close>, digits, \<open> = { \<close>, tokens of word characters with one space between them,
  and \<open> }\<close>, exactly the tokens equal to \<open>willreturn\<close> are removed and the others stay in
  their order, so that a group without \<open>willreturn\<close> is returned unchanged.
\<close>

theorem attribute_stripping_per_line:
  "(list_all2 (\<lambda>line line'. convert_line line = Inr line') (splitlines ir) ls
      \<longrightarrow> llvm150_to_70_ir ir = Inr (join ''\<newline>'' ls))
   \<and> (\<not> startswith line ''attributes #'' \<longrightarrow> convert_line line = Inr line)
   \<and> (ds \<noteq> [] \<and> (\<forall>c \<in> set ds. is_digit c) \<and> toks \<noteq> [] \<and>
        (\<forall>t \<in> set toks. t \<noteq> [] \<and> (\<forall>c \<in> set t. is_word c))
      \<longrightarrow> convert_line (''attributes #'' @ ds @ '' = { '' @ join '' '' toks @ '' }'') =
            Inr (''attributes #'' @ ds @ '' = { '' @
                 join '' '' (filter (\<lambda>t. t \<noteq> ''willreturn'') toks) @ '' }'')
          \<and> (''willreturn'' \<notin> set toks \<longrightarrow>
               convert_line (''attributes #'' @ ds @ '' = { '' @ join '' '' toks @ '' }'') =
               Inr (''attributes #'' @ ds @ '' = { '' @ join '' '' toks @ '' }'')))"
proof (intro conjI impI)
  assume "list_all2 (\<lambda>line line'. convert_line line = Inr line') (splitlines ir) ls"
  from loop_lines [OF this, of "[]"] show "llvm150_to_70_ir ir = Inr (join ''\<newline>'' ls)"
    by (simp add: llvm150_to_70_ir_def)
next
  assume "\<not> startswith line ''attributes #''"
  then show "convert_line line = Inr line" by (simp add: convert_line_def)
next
  assume h: "ds \<noteq> [] \<and> (\<forall>c \<in> set ds. is_digit c) \<and> toks \<noteq> [] \<and>
        (\<forall>t \<in> set toks. t \<noteq> [] \<and> (\<forall>c \<in> set t. is_word c))"
  then show c: "convert_line (''attributes #'' @ ds @ '' = { '' @ join '' '' toks @ '' }'') =
            Inr (''attributes #'' @ ds @ '' = { '' @
                 join '' '' (filter (\<lambda>t. t \<noteq> ''willreturn'') toks) @ '' }'')"
    using convert_canonical by blast
  assume "''willreturn'' \<notin> set toks"
  then have "filter (\<lambda>t. t \<noteq> ''willreturn'') toks = toks" by (auto simp: filter_id_conv)
  with c show "convert_line (''attributes #'' @ ds @ '' = { '' @ join '' '' toks @ '' }'') =
               Inr (''attributes #'' @ ds @ '' = { '' @ join '' '' toks @ '' }'')"
    by simp
qed

theorem attribute_stripping_per_line_witness:
  "llvm150_to_70_ir
     ''declare void @f()\<newline>attributes #12 = { nounwind willreturn readnone }'' =
     Inr ''declare void @f()\<newline>attributes #12 = { nounwind readnone }''
   \<and> convert_line ''declare void @f()'' = Inr ''declare void @f()''
   \<and> convert_line ''attributes #12 = { nounwind willreturn readnone }'' =
       Inr ''attributes #12 = { nounwind readnone }''
   \<and> convert_line ''attributes #3 = { nounwind readnone }'' =
       Inr ''attributes #3 = { nounwind readnone }''"
proof -
  let ?ir = "''declare void @f()\<newline>attributes #12 = { nounwind willreturn readnone }''"
  have s: "splitlines ?ir =
      [''declare void @f()'', ''attributes #12 = { nounwind willreturn readnone }'']"
    by code_simp
  have n: "\<not> startswith ''declare void @f()'' ''attributes #''" by simp
  have d12: "''12'' \<noteq> [] \<and> (\<forall>c \<in> set ''12''. is_digit c)" by (simp add: is_digit_def)
  have d3: "''3'' \<noteq> [] \<and> (\<forall>c \<in> set ''3''. is_digit c)" by (simp add: is_digit_def)
  have t1: "[''nounwind'', ''willreturn'', ''readnone''] \<noteq> [] \<and>
      (\<forall>t \<in> set [''nounwind'', ''willreturn'', ''readnone'']. t \<noteq> [] \<and> (\<forall>c \<in> set t. is_word c))"
    by (simp add: is_word_def)
  have t2: "[''nounwind'', ''readnone''] \<noteq> [] \<and>
      (\<forall>t \<in> set [''nounwind'', ''readnone'']. t \<noteq> [] \<and> (\<forall>c \<in> set t. is_word c))"
    by (simp add: is_word_def)
  have w: "''willreturn'' \<notin> set [''nounwind'', ''readnone'']" by simp
  note a = attribute_stripping_per_line
      [of ?ir "[''declare void @f()'', ''attributes #12 = { nounwind readnone }'']"
          "''declare void @f()''" "''12''" "[''nounwind'', ''willreturn'', ''readnone'']"]
  note b = attribute_stripping_per_line
      [of "[]" "[]" "[]" "''3''" "[''nounwind'', ''readnone'']"]
  have c1: "convert_line ''declare void @f()'' = Inr ''declare void @f()''"
    using a n by blast
  have c2: "convert_line ''attributes #12 = { nounwind willreturn readnone }'' =
       Inr ''attributes #12 = { nounwind readnone }''"
    using a d12 t1 by simp
  have c3: "convert_line ''attributes #3 = { nounwind readnone }'' =
       Inr ''attributes #3 = { nounwind readnone }''"
    using b d3 t2 w by simp
  have "list_all2 (\<lambda>line line'. convert_line line = Inr line') (splitlines ?ir)
      [''declare void @f()'', ''attributes #12 = { nounwind readnone }'']"
    unfolding s using c1 c2 by simp
  with a have "llvm150_to_70_ir ?ir =
      Inr (join ''\<newline>'' [''declare void @f()'', ''attributes #12 = { nounwind readnone }''])"
    by blast
  with c1 c2 c3 show ?thesis by simp
qed

lemma no_declaration_group:
  "foldl (\<lambda>s (decl, fn). str_replace s decl fn) ''attributes #0 = { ximmarg }''
     (butlast replacements) = ''attributes #0 = { ximmarg }''"
  by (rule fold_identity) (simp add: replacements_def)

lemma no_declaration_call:
  "foldl (\<lambda>s (decl, fn). str_replace s decl fn) ''call void @f(i32 immarg 0)''
     (butlast replacements) = ''call void @f(i32 immarg 0)''"
  by (rule fold_identity) (simp add: replacements_def)

text \<open>
  C4 as stated fails. A group whose tokens are all kept is not returned unchanged
  when the white space between them is not one space; \<open>immarg\<close> is not a token that the
  conversion of a group removes; and the removal of \<open>immarg\<close> that \<open>llvm_replace\<close> does
  before the conversion is a replacement in the whole text, which changes a token that
  only contains \<open>immarg\<close> and changes lines that are not attribute groups.
\<close>

theorem attribute_stripping_counterexample:
  "llvm150_to_70_ir ''attributes #0 = { nounwind  readnone }'' =
     Inr ''attributes #0 = { nounwind readnone }''
   \<and> llvm150_to_70_ir ''attributes #0 = { immarg nounwind }'' =
     Inr ''attributes #0 = { immarg nounwind }''
   \<and> llvm_replace ''attributes #0 = { ximmarg }'' = Inr ''attributes #0 = { x }''
   \<and> llvm_replace ''call void @f(i32 immarg 0)'' = Inr ''call void @f(i32  0)''"
proof -
  have a: "llvm150_to_70_ir ''attributes #0 = { nounwind  readnone }'' =
     Inr ''attributes #0 = { nounwind readnone }''" by code_simp
  have b: "llvm150_to_70_ir ''attributes #0 = { immarg nounwind }'' =
     Inr ''attributes #0 = { immarg nounwind }''" by code_simp
  have c: "str_replace ''attributes #0 = { ximmarg }'' ''immarg'' [] = ''attributes #0 = { x }''"
    by code_simp
  have c': "llvm150_to_70_ir ''attributes #0 = { x }'' = Inr ''attributes #0 = { x }''"
    by code_simp
  have d: "str_replace ''call void @f(i32 immarg 0)'' ''immarg'' [] = ''call void @f(i32  0)''"
    by code_simp
  have d': "llvm150_to_70_ir ''call void @f(i32  0)'' = Inr ''call void @f(i32  0)''"
    by code_simp
  show ?thesis
    unfolding llvm_replace_steps no_declaration_group no_declaration_call c c' d d'
    using a b by simp
qed

subsection \<open>What the synthesized atomics return\<close>




















end
